theory Spec2Isabelle
  imports Main "HOL-Library.Word"
begin

unbundle bit_operations_syntax

section \<open>Data model\<close>

text \<open>
  The scan engine of \<^verbatim>\<open>src/scout.cpp\<close>: \<^verbatim>\<open>Scout::search\<close> replays the games of a
  memory-mapped array of moves and tests every position reached against a compiled list
  of rules, \<^verbatim>\<open>Scout::parse_rules\<close> compiles that list from a JSON query, and
  \<^verbatim>\<open>Scout::print_results\<close> adds the counters of the threads up.
\<close>

type_synonym Bitboard = "64 word"
type_synonym Key = "64 word"

text \<open>
  Modelled from the spec: the type \<^verbatim>\<open>Move\<close> and the constant \<^verbatim>\<open>MOVE_NONE\<close> are declared in
  a header that is not part of the sources at hand. The spec calls a move an opaque
  fixed-width encoded half-move with one reserved value, the sentinel that ends a game.
  The width and the sentinel's value play no role in what follows beyond the sentinel
  being one fixed value.
\<close>

type_synonym Move = "16 word"

definition MOVE_NONE :: Move where
  "MOVE_NONE = 0"

datatype Color = WHITE | BLACK

datatype PieceType = PAWN | KNIGHT | BISHOP | ROOK | QUEEN | KING

datatype GameResult = WhiteWin | BlackWin | Draw | Unknown | Invalid

datatype RuleType =
  RuleNone | RulePattern | RuleMaterial | RuleWhite | RuleBlack | RuleResult | RuleEnd

text \<open>
  Modelled from the spec: the class \<^verbatim>\<open>Position\<close> belongs to the rules engine, which is
  not part of the sources at hand. The scan reads five things of a position: the
  occupancy mask of all pieces (\<^verbatim>\<open>pos.pieces()\<close>), of one colour (\<^verbatim>\<open>pos.pieces(c)\<close>), of
  one piece type (\<^verbatim>\<open>pos.pieces(pt)\<close>), the material key and the side to move. A position
  is the record of these five observations.
\<close>

record Position =
  pieces_all :: Bitboard
  pieces_color :: "Color \<Rightarrow> Bitboard"
  pieces_type :: "PieceType \<Rightarrow> Bitboard"
  material_key :: Key
  side_to_move :: Color

text \<open>\<^verbatim>\<open>d.pattern\<close>: the masks of the requested pattern.\<close>

record Pattern =
  all :: Bitboard
  white :: Bitboard
  pieces :: "(PieceType \<times> Bitboard) list"

text \<open>
  \<^verbatim>\<open>Scout::Data\<close>. \<open>baseAddress\<close> is the memory that can be read from the base address
  on, as a list of moves; the database is its first \<open>dbSize\<close> cells. A read at or
  beyond the end of the list is a fault.
\<close>

record Data =
  baseAddress :: "Move list"
  dbSize :: nat
  rules :: "RuleType list"
  pattern :: Pattern
  matKey :: Key
  result :: GameResult
  movesCnt :: nat
  matchCnt :: nat

record Thread =
  idx :: nat
  scout :: Data
  rootPos :: Position

datatype fault = OutOfBounds | AssertionFailed | DivisionByZero | ParseError | TypeError | DecodeError

text \<open>The values of the JSON library, as far as \<^verbatim>\<open>parse_rules\<close> tells them apart.\<close>

datatype json =
  JNull | JBool bool | JNum int | JStr string | JArr "json list" | JObj "(string \<times> json) list"

text \<open>
  The collaborators that are called and not defined in the sources at hand, taken as
  parameters: \<open>do_move\<close> applies a move to a position; \<open>legal\<close> stands for
  \<^verbatim>\<open>pos.pseudo_legal(m) && pos.legal(m)\<close>; \<open>game_result\<close> stands for
  \<^verbatim>\<open>GameResult(to_sq(Move(m)))\<close>, the decoding of a game's first cell; \<open>json_parse\<close> is
  \<^verbatim>\<open>json::parse\<close>, \<open>None\<close> when it throws; \<open>set_fen\<close> is \<^verbatim>\<open>Position::set\<close> on a FEN string and
  \<open>set_material\<close> is \<^verbatim>\<open>Position().set(code, WHITE, &st).material_key()\<close>, each with the
  faults the engine may raise.
\<close>

record Engine =
  do_move :: "Position \<Rightarrow> Move \<Rightarrow> Position"
  legal :: "Position \<Rightarrow> Move \<Rightarrow> bool"
  game_result :: "Move \<Rightarrow> GameResult"
  json_parse :: "string \<Rightarrow> json option"
  set_fen :: "string \<Rightarrow> fault + Position"
  set_material :: "string \<Rightarrow> fault + Key"

section \<open>The scan: \<^verbatim>\<open>Scout::search\<close>\<close>

text \<open>Where the three exits of the rule loop lead: the label \<^verbatim>\<open>Failed\<close>, the label
  \<^verbatim>\<open>SkipToNext\<close> reached from \<^verbatim>\<open>RuleResult\<close>, and \<^verbatim>\<open>SkipToNext\<close> reached by falling
  through from \<^verbatim>\<open>RuleEnd\<close> after \<^verbatim>\<open>matchCnt++\<close>.\<close>

datatype Jump = Failed | SkipToNext | Matched

text \<open>\<^verbatim>\<open>for (const auto& p : pieces) if ((pos.pieces(p.first) & p.second) != p.second) goto Failed;\<close>
  The result is \<open>False\<close> when the loop jumps to \<^verbatim>\<open>Failed\<close>.\<close>

fun pieces_loop :: "Position \<Rightarrow> (PieceType \<times> Bitboard) list \<Rightarrow> bool" where
  "pieces_loop pos [] = True"
| "pieces_loop pos (p # ps) =
     (if (pieces_type pos (fst p) AND snd p) \<noteq> snd p then False else pieces_loop pos ps)"

text \<open>\<^verbatim>\<open>while (true) switch (*++curRule)\<close>: the rules are read one after the other; reading
  past the last one is a read out of the vector.\<close>

fun run_rules :: "Data \<Rightarrow> GameResult \<Rightarrow> Position \<Rightarrow> RuleType list \<Rightarrow> fault + Jump" where
  "run_rules d res pos [] = Inl OutOfBounds"
| "run_rules d res pos (RuleNone # rs) = Inr Failed"
| "run_rules d res pos (RulePattern # rs) =
     (if (pieces_all pos AND all (pattern d)) \<noteq> all (pattern d)
         \<or> (pieces_color pos WHITE AND white (pattern d)) \<noteq> white (pattern d)
      then Inr Failed
      else if \<not> pieces_loop pos (pieces (pattern d)) then Inr Failed
      else run_rules d res pos rs)"
| "run_rules d res pos (RuleMaterial # rs) =
     (if material_key pos \<noteq> matKey d then Inr Failed else run_rules d res pos rs)"
| "run_rules d res pos (RuleWhite # rs) =
     (if side_to_move pos \<noteq> WHITE then Inr Failed else run_rules d res pos rs)"
| "run_rules d res pos (RuleBlack # rs) =
     (if side_to_move pos \<noteq> BLACK then Inr Failed else run_rules d res pos rs)"
| "run_rules d res pos (RuleResult # rs) =
     (if res \<noteq> result d then Inr SkipToNext else run_rules d res pos rs)"
| "run_rules d res pos (RuleEnd # rs) = Inr Matched"

text \<open>\<^verbatim>\<open>while (*data++ != MOVE_NONE) {}\<close>: the pointer ends one past the first sentinel at
  or after it.\<close>

function move_to_next_game :: "Move list \<Rightarrow> nat \<Rightarrow> fault + nat" where
  "move_to_next_game mem data =
     (if data < length mem
      then (if mem ! data \<noteq> MOVE_NONE then move_to_next_game mem (data + 1)
            else Inr (data + 1))
      else Inl OutOfBounds)"
  by pat_completeness auto
termination
  by (relation "measure (\<lambda>(mem, data). length mem - data)") auto

declare move_to_next_game.simps [simp del]

text \<open>\<^verbatim>\<open>while (*++data != MOVE_NONE) { cnt++; }\<close>: the pointer ends on the sentinel.\<close>

function skip_to_next :: "Move list \<Rightarrow> nat \<Rightarrow> nat \<Rightarrow> fault + nat \<times> nat" where
  "skip_to_next mem data cnt =
     (if data + 1 < length mem
      then (if mem ! (data + 1) \<noteq> MOVE_NONE then skip_to_next mem (data + 1) (cnt + 1)
            else Inr (data + 1, cnt))
      else Inl OutOfBounds)"
  by pat_completeness auto
termination
  by (relation "measure (\<lambda>(mem, data, cnt). length mem - data)") auto

declare skip_to_next.simps [simp del]

lemma skip_to_next_gt:
  "skip_to_next mem data cnt = Inr (data', cnt') \<Longrightarrow> data < data'"
proof (induction mem data cnt rule: skip_to_next.induct)
  case (1 mem data cnt)
  show ?case
  proof (cases "data + 1 < length mem \<and> mem ! (data + 1) \<noteq> MOVE_NONE")
    case True
    with "1.prems" have "skip_to_next mem (data + 1) (cnt + 1) = Inr (data', cnt')"
      by (subst (asm) skip_to_next.simps) simp
    with True "1.IH" have "data + 1 < data'" by blast
    then show ?thesis by simp
  next
    case False
    with "1.prems" show ?thesis
      by (subst (asm) skip_to_next.simps) (auto split: if_splits)
  qed
qed

text \<open>
  The loop over the moves of one game, \<^verbatim>\<open>while (*++data != MOVE_NONE)\<close>, entered with
  \<open>data\<close> on the cell that stores the result. It returns the pointer (on the sentinel)
  and the two counters. After \<^verbatim>\<open>SkipToNext\<close> the pointer is stepped back by one
  (\<^verbatim>\<open>data--\<close>) and the loop goes on (\<^verbatim>\<open>goto Failed\<close>). \<open>st\<close> is the number of entries
  of \<^verbatim>\<open>StateInfo states[1024]\<close> in use: every move that is applied takes the next entry
  (\<^verbatim>\<open>*st++\<close>), and taking an entry past the last one is a fault.
\<close>

function replay_game ::
  "Engine \<Rightarrow> Data \<Rightarrow> Move list \<Rightarrow> GameResult \<Rightarrow> Position \<Rightarrow> nat \<Rightarrow> nat \<Rightarrow> nat \<Rightarrow> nat
     \<Rightarrow> fault + nat \<times> nat \<times> nat" where
  "replay_game E d mem res pos st data cnt mcnt =
     (if data + 1 < length mem
      then (if mem ! (data + 1) \<noteq> MOVE_NONE
            then (if \<not> legal E pos (mem ! (data + 1)) then Inl AssertionFailed
                  else if 1024 \<le> st then Inl OutOfBounds
                  else (case run_rules d res (do_move E pos (mem ! (data + 1))) (rules d) of
                          Inl e \<Rightarrow> Inl e
                        | Inr Failed \<Rightarrow>
                            replay_game E d mem res (do_move E pos (mem ! (data + 1))) (st + 1)
                              (data + 1) (cnt + 1) mcnt
                        | Inr SkipToNext \<Rightarrow>
                            (case skip_to_next mem (data + 1) (cnt + 1) of
                               Inl e \<Rightarrow> Inl e
                             | Inr (data', cnt') \<Rightarrow>
                                 replay_game E d mem res (do_move E pos (mem ! (data + 1)))
                                   (st + 1) (data' - 1) cnt' mcnt)
                        | Inr Matched \<Rightarrow>
                            (case skip_to_next mem (data + 1) (cnt + 1) of
                               Inl e \<Rightarrow> Inl e
                             | Inr (data', cnt') \<Rightarrow>
                                 replay_game E d mem res (do_move E pos (mem ! (data + 1)))
                                   (st + 1) (data' - 1) cnt' (mcnt + 1))))
            else Inr (data + 1, cnt, mcnt))
      else Inl OutOfBounds)"
  by pat_completeness auto
termination
proof (relation "measure (\<lambda>(E, d, mem, res, pos, st, data, cnt, mcnt). length mem - data)",
    goal_cases)
  case 1
  show ?case by simp
next
  case (2 E d mem res pos st data cnt mcnt)
  then show ?case by simp
next
  case (3 E d mem res pos st data cnt mcnt x y data' cnt')
  then show ?case
    using skip_to_next_gt [of mem "data + 1" "cnt + 1" data' cnt'] by simp
next
  case (4 E d mem res pos st data cnt mcnt x y data' cnt')
  then show ?case
    using skip_to_next_gt [of mem "data + 1" "cnt + 1" data' cnt'] by simp
qed

declare replay_game.simps [simp del]

lemma replay_game_gt:
  "replay_game E d mem res pos st data cnt mcnt = Inr (data', cnt', mcnt') \<Longrightarrow> data < data'"
proof (induction E d mem res pos st data cnt mcnt rule: replay_game.induct)
  case (1 E d mem res pos st data cnt mcnt)
  let ?m = "mem ! (data + 1)"
  let ?pos = "do_move E pos ?m"
  show ?case
  proof (cases "data + 1 < length mem \<and> ?m \<noteq> MOVE_NONE \<and> legal E pos ?m \<and> \<not> 1024 \<le> st")
    case False
    with "1.prems" show ?thesis
      by (subst (asm) replay_game.simps) (auto split: if_splits)
  next
    case True
    note t = this
    show ?thesis
    proof (cases "run_rules d res ?pos (rules d)")
      case (Inl e)
      with t "1.prems" show ?thesis
        by (subst (asm) replay_game.simps) simp
    next
      case (Inr j)
      show ?thesis
      proof (cases j)
        case Failed
        with t Inr "1.prems"
        have "replay_game E d mem res ?pos (st + 1) (data + 1) (cnt + 1) mcnt = Inr (data', cnt', mcnt')"
          by (subst (asm) replay_game.simps) simp
        with "1.IH"(1) t Inr Failed have "data + 1 < data'" by blast
        then show ?thesis by simp
      next
        case SkipToNext
        show ?thesis
        proof (cases "skip_to_next mem (data + 1) (cnt + 1)")
          case (Inl e)
          with t Inr SkipToNext "1.prems" show ?thesis
            by (subst (asm) replay_game.simps) simp
        next
          case (Inr p)
          obtain s c where p: "p = (s, c)" by (cases p)
          from t \<open>run_rules d res ?pos (rules d) = Inr j\<close> SkipToNext Inr p "1.prems"
          have "replay_game E d mem res ?pos (st + 1) (s - 1) c mcnt = Inr (data', cnt', mcnt')"
            by (subst (asm) replay_game.simps) simp
          with "1.IH"(2) t \<open>run_rules d res ?pos (rules d) = Inr j\<close> SkipToNext Inr p
          have "s - 1 < data'" by blast
          moreover from Inr p have "data + 1 < s" by (auto dest: skip_to_next_gt)
          ultimately show ?thesis by simp
        qed
      next
        case Matched
        show ?thesis
        proof (cases "skip_to_next mem (data + 1) (cnt + 1)")
          case (Inl e)
          with t Inr Matched "1.prems" show ?thesis
            by (subst (asm) replay_game.simps) simp
        next
          case (Inr p)
          obtain s c where p: "p = (s, c)" by (cases p)
          from t \<open>run_rules d res ?pos (rules d) = Inr j\<close> Matched Inr p "1.prems"
          have "replay_game E d mem res ?pos (st + 1) (s - 1) c (mcnt + 1) = Inr (data', cnt', mcnt')"
            by (subst (asm) replay_game.simps) simp
          with "1.IH"(3) t \<open>run_rules d res ?pos (rules d) = Inr j\<close> Matched Inr p
          have "s - 1 < data'" by blast
          moreover from Inr p have "data + 1 < s" by (auto dest: skip_to_next_gt)
          ultimately show ?thesis by simp
        qed
      qed
    qed
  qed
qed

text \<open>\<^verbatim>\<open>while (*++data == MOVE_NONE && data < end) {}\<close>, entered with \<open>data\<close> on the sentinel
  of the game just replayed. The cell is read before the pointer is compared with
  \<open>end\<close>.\<close>

function end_of_game :: "Move list \<Rightarrow> nat \<Rightarrow> nat \<Rightarrow> fault + nat" where
  "end_of_game mem end_ptr data =
     (if data + 1 < length mem
      then (if mem ! (data + 1) = MOVE_NONE \<and> data + 1 < end_ptr
            then end_of_game mem end_ptr (data + 1)
            else Inr (data + 1))
      else Inl OutOfBounds)"
  by pat_completeness auto
termination
  by (relation "measure (\<lambda>(mem, end_ptr, data). length mem - data)") auto

declare end_of_game.simps [simp del]

lemma end_of_game_gt:
  "end_of_game mem end_ptr data = Inr data' \<Longrightarrow> data < data'"
proof (induction mem end_ptr data rule: end_of_game.induct)
  case (1 mem end_ptr data)
  show ?case
  proof (cases "data + 1 < length mem \<and> mem ! (data + 1) = MOVE_NONE \<and> data + 1 < end_ptr")
    case True
    with "1.prems" have "end_of_game mem end_ptr (data + 1) = Inr data'"
      by (subst (asm) end_of_game.simps) simp
    with True "1.IH" have "data + 1 < data'" by blast
    then show ?thesis by simp
  next
    case False
    with "1.prems" show ?thesis
      by (subst (asm) end_of_game.simps) (auto split: if_splits)
  qed
qed

text \<open>
  The main loop, \<^verbatim>\<open>while (data < end)\<close>: one game per round. The first cell of a game is
  asserted not to be the sentinel and is decoded into the game's result; every game is
  replayed from the root position. The two assertions of the source are modelled as
  faults, as in a build that checks them; a property proved under hypotheses that make
  them hold is a property of a build without them as well.
\<close>

function main_loop ::
  "Engine \<Rightarrow> Data \<Rightarrow> Move list \<Rightarrow> Position \<Rightarrow> nat \<Rightarrow> nat \<Rightarrow> nat \<Rightarrow> nat \<Rightarrow> fault + nat \<times> nat"
  where
  "main_loop E d mem root end_ptr data cnt mcnt =
     (if data < end_ptr
      then (if data < length mem
            then (if mem ! data = MOVE_NONE then Inl AssertionFailed
                  else (case replay_game E d mem (game_result E (mem ! data)) root 0 data cnt mcnt of
                          Inl e \<Rightarrow> Inl e
                        | Inr (data', cnt', mcnt') \<Rightarrow>
                            (case end_of_game mem end_ptr data' of
                               Inl e \<Rightarrow> Inl e
                             | Inr data'' \<Rightarrow> main_loop E d mem root end_ptr data'' cnt' mcnt')))
            else Inl OutOfBounds)
      else Inr (cnt, mcnt))"
  by pat_completeness auto
termination
proof (relation "measure (\<lambda>(E, d, mem, root, end_ptr, data, cnt, mcnt). length mem - data)",
    goal_cases)
  case 1
  show ?case by simp
next
  case 2
  then show ?case
    by (auto dest!: replay_game_gt end_of_game_gt)
qed

declare main_loop.simps [simp del]

text \<open>
  \<^verbatim>\<open>Scout::search\<close> for one thread of \<open>threads_size\<close>: the file sub-range, the move to
  the beginning of the next game, the main loop, and the two counters written back into
  the thread's data. Pointers into the array are offsets from the base address. Offsets
  and counters are natural numbers: none of them grows beyond the number of cells of the
  memory, so the source's \<^verbatim>\<open>size_t\<close> does not wrap around.
\<close>

definition search :: "Engine \<Rightarrow> nat \<Rightarrow> Thread \<Rightarrow> fault + Thread" where
  "search E threads_size th =
     (if threads_size = 0 then Inl DivisionByZero
      else
        let d = scout th;
            range = dbSize d div threads_size;
            data = idx th * range;
            end_ptr = (if idx th = threads_size - 1 then dbSize d else data + range)
        in (case move_to_next_game (baseAddress d) data of
              Inl e \<Rightarrow> Inl e
            | Inr data' \<Rightarrow>
                (case main_loop E d (baseAddress d) (rootPos th) end_ptr data' 0 0 of
                   Inl e \<Rightarrow> Inl e
                 | Inr (cnt, mcnt) \<Rightarrow>
                     Inr (th\<lparr>scout := d\<lparr>movesCnt := cnt, matchCnt := mcnt\<rparr>\<rparr>))))"

section \<open>The totals: \<^verbatim>\<open>Scout::print_results\<close>\<close>

text \<open>The two sums of \<^verbatim>\<open>print_results\<close> over the threads: moves and matches. The
  clock, the unmapping and the printing are left out.\<close>

definition print_results :: "Thread list \<Rightarrow> nat \<times> nat" where
  "print_results ths =
     (sum_list (map (\<lambda>th. movesCnt (scout th)) ths),
      sum_list (map (\<lambda>th. matchCnt (scout th)) ths))"

text \<open>
  Modelled from the spec: the thread pool is not part of the sources at hand. The spec
  has it spawn a fixed number of workers, each given its index and the shared scan
  context, and block until all are complete. \<open>run_threads\<close> runs \<open>search\<close> for the
  indices \<open>0 ..< n\<close> on copies of the same data and root position; the first fault, if
  any, is the result. \<open>scan\<close> then reports the totals.
\<close>

fun collect :: "(fault + 'a) list \<Rightarrow> fault + 'a list" where
  "collect [] = Inr []"
| "collect (r # rs) =
     (case r of
        Inl e \<Rightarrow> Inl e
      | Inr x \<Rightarrow> (case collect rs of Inl e \<Rightarrow> Inl e | Inr xs \<Rightarrow> Inr (x # xs)))"

definition run_threads :: "Engine \<Rightarrow> Data \<Rightarrow> Position \<Rightarrow> nat \<Rightarrow> fault + Thread list" where
  "run_threads E d root n =
     collect (map (\<lambda>i. search E n \<lparr>idx = i, scout = d, rootPos = root\<rparr>) [0 ..< n])"

definition scan :: "Engine \<Rightarrow> Data \<Rightarrow> Position \<Rightarrow> nat \<Rightarrow> fault + nat \<times> nat" where
  "scan E d root n =
     (case run_threads E d root n of Inl e \<Rightarrow> Inl e | Inr ths \<Rightarrow> Inr (print_results ths))"

section \<open>The query compiler: \<^verbatim>\<open>Scout::parse_rules\<close>\<close>

text \<open>\<^verbatim>\<open>j.empty()\<close> of the JSON library: true of null and of an array or object without
  elements, false of every other value (a string, also the empty one, a number, a
  boolean).\<close>

fun jempty :: "json \<Rightarrow> bool" where
  "jempty JNull = True"
| "jempty (JArr xs) = (xs = [])"
| "jempty (JObj kvs) = (kvs = [])"
| "jempty (JBool b) = False"
| "jempty (JNum n) = False"
| "jempty (JStr s) = False"

text \<open>\<^verbatim>\<open>j[key]\<close>: the member of an object, null when the object has no such key; null
  is treated as an object without keys; any other value throws.\<close>

fun jfield :: "json \<Rightarrow> string \<Rightarrow> fault + json" where
  "jfield (JObj kvs) k = Inr (case map_of kvs k of None \<Rightarrow> JNull | Some v \<Rightarrow> v)"
| "jfield JNull k = Inr JNull"
| "jfield (JBool b) k = Inl TypeError"
| "jfield (JNum n) k = Inl TypeError"
| "jfield (JStr s) k = Inl TypeError"
| "jfield (JArr xs) k = Inl TypeError"

text \<open>The conversion of a JSON value to \<^verbatim>\<open>std::string\<close>, where a string parameter is
  bound to \<^verbatim>\<open>j["fen"]\<close> or \<^verbatim>\<open>j["material"]\<close>: it throws unless the value is a string.\<close>

fun jstring :: "json \<Rightarrow> fault + string" where
  "jstring (JStr s) = Inr s"
| "jstring JNull = Inl TypeError"
| "jstring (JBool b) = Inl TypeError"
| "jstring (JNum n) = Inl TypeError"
| "jstring (JArr xs) = Inl TypeError"
| "jstring (JObj kvs) = Inl TypeError"

text \<open>\<^verbatim>\<open>for (PieceType pt = PAWN; pt <= KING; ++pt) if (pos.pieces(pt))
  p.pieces.push_back(std::make_pair(pt, pos.pieces(pt)));\<close>\<close>

fun fen_loop ::
  "Position \<Rightarrow> PieceType list \<Rightarrow> (PieceType \<times> Bitboard) list \<Rightarrow> (PieceType \<times> Bitboard) list"
  where
  "fen_loop pos [] ps = ps"
| "fen_loop pos (pt # pts) ps =
     fen_loop pos pts (if pieces_type pos pt \<noteq> 0 then ps @ [(pt, pieces_type pos pt)] else ps)"

text \<open>\<^verbatim>\<open>if (!j["fen"].empty()) { ... }\<close>\<close>

definition rule_fen :: "Engine \<Rightarrow> json \<Rightarrow> Data \<Rightarrow> fault + Data" where
  "rule_fen E j data =
     (case jfield j ''fen'' of
        Inl e \<Rightarrow> Inl e
      | Inr v \<Rightarrow>
          if jempty v then Inr data
          else (case jstring v of
                  Inl e \<Rightarrow> Inl e
                | Inr s \<Rightarrow>
                    (case set_fen E s of
                       Inl e \<Rightarrow> Inl e
                     | Inr pos \<Rightarrow>
                         Inr (data\<lparr>pattern :=
                                     \<lparr>all = pieces_all pos,
                                      white = pieces_color pos WHITE,
                                      pieces = fen_loop pos [PAWN, KNIGHT, BISHOP, ROOK, QUEEN, KING]
                                                 (pieces (pattern data))\<rparr>,
                                   rules := rules data @ [RulePattern]\<rparr>))))"

text \<open>\<^verbatim>\<open>if (!j["material"].empty()) { ... }\<close>\<close>

definition rule_material :: "Engine \<Rightarrow> json \<Rightarrow> Data \<Rightarrow> fault + Data" where
  "rule_material E j data =
     (case jfield j ''material'' of
        Inl e \<Rightarrow> Inl e
      | Inr v \<Rightarrow>
          if jempty v then Inr data
          else (case jstring v of
                  Inl e \<Rightarrow> Inl e
                | Inr s \<Rightarrow>
                    (case set_material E s of
                       Inl e \<Rightarrow> Inl e
                     | Inr k \<Rightarrow> Inr (data\<lparr>matKey := k, rules := rules data @ [RuleMaterial]\<rparr>))))"

text \<open>\<^verbatim>\<open>if (!j["stm"].empty()) { ... }\<close>: the comparison \<^verbatim>\<open>j["stm"] == "WHITE"\<close> holds of the
  string \<^verbatim>\<open>WHITE\<close> and of no other value.\<close>

definition rule_stm :: "json \<Rightarrow> Data \<Rightarrow> fault + Data" where
  "rule_stm j data =
     (case jfield j ''stm'' of
        Inl e \<Rightarrow> Inl e
      | Inr v \<Rightarrow>
          if jempty v then Inr data
          else Inr (data\<lparr>rules := rules data @ [if v = JStr ''WHITE'' then RuleWhite else RuleBlack]\<rparr>))"

text \<open>\<^verbatim>\<open>if (!j["result"].empty()) { ... }\<close>\<close>

definition rule_result :: "json \<Rightarrow> Data \<Rightarrow> fault + Data" where
  "rule_result j data =
     (case jfield j ''result'' of
        Inl e \<Rightarrow> Inl e
      | Inr v \<Rightarrow>
          if jempty v then Inr data
          else (let res = (if v = JStr ''1-0'' then WhiteWin
                           else if v = JStr ''0-1'' then BlackWin
                           else if v = JStr ''1/2-1/2'' then Draw
                           else if v = JStr ''*'' then Unknown
                           else Invalid)
                in if res \<noteq> Invalid
                   then Inr (data\<lparr>result := res, rules := rules data @ [RuleResult]\<rparr>)
                   else Inr data))"

text \<open>\<^verbatim>\<open>Scout::parse_rules\<close>: the four blocks in the order of the source, then
  \<^verbatim>\<open>data.rules.push_back(data.rules.size() ? Scout::RuleEnd : Scout::RuleNone)\<close>.\<close>

definition parse_rules :: "Engine \<Rightarrow> Data \<Rightarrow> string \<Rightarrow> fault + Data" where
  "parse_rules E data is =
     (case json_parse E is of
        None \<Rightarrow> Inl ParseError
      | Some j \<Rightarrow>
          (case rule_fen E j data of
             Inl e \<Rightarrow> Inl e
           | Inr d1 \<Rightarrow>
               (case rule_material E j d1 of
                  Inl e \<Rightarrow> Inl e
                | Inr d2 \<Rightarrow>
                    (case rule_stm j d2 of
                       Inl e \<Rightarrow> Inl e
                     | Inr d3 \<Rightarrow>
                         (case rule_result j d3 of
                            Inl e \<Rightarrow> Inl e
                          | Inr d4 \<Rightarrow>
                              Inr (d4\<lparr>rules := rules d4 @
                                     [if length (rules d4) \<noteq> 0 then RuleEnd else RuleNone]\<rparr>))))))"

section \<open>Notions used to state the properties\<close>

text \<open>A query field counts as present when \<^verbatim>\<open>!j[k].empty()\<close> holds.\<close>

definition present :: "json \<Rightarrow> string \<Rightarrow> bool" where
  "present j k = (case jfield j k of Inl e \<Rightarrow> False | Inr v \<Rightarrow> \<not> jempty v)"

text \<open>The four values of the result field that the spec lists.\<close>

definition recognized_result :: "json \<Rightarrow> bool" where
  "recognized_result v =
     (v = JStr ''1-0'' \<or> v = JStr ''0-1'' \<or> v = JStr ''1/2-1/2'' \<or> v = JStr ''*'')"

text \<open>
  The program of the spec, for comparison with the one \<open>parse_rules\<close> builds: the
  opcodes in the order pattern, material, side to move, result, each only when its field
  is recognized.
\<close>

definition spec_program :: "json \<Rightarrow> RuleType list" where
  "spec_program j =
     (if present j ''fen'' then [RulePattern] else []) @
     (if present j ''material'' then [RuleMaterial] else []) @
     (if present j ''stm''
      then [if jfield j ''stm'' = Inr (JStr ''WHITE'') then RuleWhite else RuleBlack] else []) @
     (if (case jfield j ''result'' of Inl e \<Rightarrow> False | Inr v \<Rightarrow> recognized_result v)
      then [RuleResult] else [])"

text \<open>Mask \<open>b\<close> is contained in mask \<open>a\<close>: every square of \<open>b\<close> is a square of \<open>a\<close>.\<close>

definition mask_subset :: "Bitboard \<Rightarrow> Bitboard \<Rightarrow> bool" where
  "mask_subset b a = (\<forall>n < 64. bit b n \<longrightarrow> bit a n)"

text \<open>
  A game record of the spec: the cell that stores the result, the moves, the sentinel.
  A game is given by its first cell and its moves; it is well formed when neither the
  first cell nor a move is the sentinel.
\<close>

definition record_of :: "Move \<times> Move list \<Rightarrow> Move list" where
  "record_of g = fst g # snd g @ [MOVE_NONE]"

definition wf_game :: "Move \<times> Move list \<Rightarrow> bool" where
  "wf_game g = (fst g \<noteq> MOVE_NONE \<and> MOVE_NONE \<notin> set (snd g))"

text \<open>Every move of \<open>ms\<close>, played in turn from \<open>pos\<close>, is legal and reaches a position
  at which the rules jump to \<^verbatim>\<open>Failed\<close>.\<close>

fun all_fail :: "Engine \<Rightarrow> Data \<Rightarrow> GameResult \<Rightarrow> Position \<Rightarrow> Move list \<Rightarrow> bool" where
  "all_fail E d res pos [] = True"
| "all_fail E d res pos (m # ms) =
     (legal E pos m \<and> run_rules d res (do_move E pos m) (rules d) = Inr Failed
      \<and> all_fail E d res (do_move E pos m) ms)"

text \<open>
  The first jump other than \<^verbatim>\<open>Failed\<close> that the rules take along the moves of a game
  played from \<open>pos\<close> with \<open>st\<close> entries of the state buffer in use, \<open>Failed\<close> when there
  is none, and the fault of the first illegal move, of the full state buffer or of the
  rules if one comes first.
\<close>

fun first_jump ::
  "Engine \<Rightarrow> Data \<Rightarrow> GameResult \<Rightarrow> Position \<Rightarrow> nat \<Rightarrow> Move list \<Rightarrow> fault + Jump" where
  "first_jump E d res pos st [] = Inr Failed"
| "first_jump E d res pos st (m # ms) =
     (if \<not> legal E pos m then Inl AssertionFailed
      else if 1024 \<le> st then Inl OutOfBounds
      else (case run_rules d res (do_move E pos m) (rules d) of
              Inl e \<Rightarrow> Inl e
            | Inr Failed \<Rightarrow> first_jump E d res (do_move E pos m) (st + 1) ms
            | Inr SkipToNext \<Rightarrow> Inr SkipToNext
            | Inr Matched \<Rightarrow> Inr Matched))"

text \<open>What one predicate opcode asks of a position; \<open>RuleNone\<close> and \<open>RuleEnd\<close> are not
  predicates.\<close>

fun rule_passes :: "Data \<Rightarrow> GameResult \<Rightarrow> Position \<Rightarrow> RuleType \<Rightarrow> bool" where
  "rule_passes d res pos RulePattern =
     (mask_subset (all (pattern d)) (pieces_all pos)
      \<and> mask_subset (white (pattern d)) (pieces_color pos WHITE)
      \<and> list_all (\<lambda>p. mask_subset (snd p) (pieces_type pos (fst p))) (pieces (pattern d)))"
| "rule_passes d res pos RuleMaterial = (material_key pos = matKey d)"
| "rule_passes d res pos RuleWhite = (side_to_move pos = WHITE)"
| "rule_passes d res pos RuleBlack = (side_to_move pos = BLACK)"
| "rule_passes d res pos RuleResult = (res = result d)"
| "rule_passes d res pos RuleNone = False"
| "rule_passes d res pos RuleEnd = False"

text \<open>A database of the spec: the records of its games, one after the other.\<close>

definition db_of :: "(Move \<times> Move list) list \<Rightarrow> Move list" where
  "db_of gs = concat (map record_of gs)"

text \<open>
  What the main loop is to compute, game by game, when it stands on the first cell of
  the first game of \<open>gs\<close> at offset \<open>off\<close>: as long as the offset is below \<open>end_ptr\<close>, the
  game is played, its moves are counted, and it counts as a match if its first jump is
  \<open>Matched\<close>.
\<close>

fun play_games ::
  "Engine \<Rightarrow> Data \<Rightarrow> Position \<Rightarrow> nat \<Rightarrow> nat \<Rightarrow> (Move \<times> Move list) list \<Rightarrow> nat \<Rightarrow> nat
     \<Rightarrow> fault + nat \<times> nat" where
  "play_games E d root end_ptr off [] cnt mcnt = Inr (cnt, mcnt)"
| "play_games E d root end_ptr off (g # gs) cnt mcnt =
     (if off < end_ptr
      then (case first_jump E d (game_result E (fst g)) root 0 (snd g) of
              Inl e \<Rightarrow> Inl e
            | Inr j \<Rightarrow>
                play_games E d root end_ptr (off + length (record_of g)) gs
                  (cnt + length (snd g)) (if j = Matched then mcnt + 1 else mcnt))
      else Inr (cnt, mcnt))"

text \<open>The games that follow the game in which the cell \<open>start\<close> lies, with the offset
  of the first of them; \<open>off\<close> is the offset of the first game of the list.\<close>

fun games_after ::
  "nat \<Rightarrow> nat \<Rightarrow> (Move \<times> Move list) list \<Rightarrow> nat \<times> (Move \<times> Move list) list" where
  "games_after start off [] = (off, [])"
| "games_after start off (g # gs) =
     (if start < off + length (record_of g) then (off + length (record_of g), gs)
      else games_after start (off + length (record_of g)) gs)"

text \<open>Every move of a game is legal when the game is played from \<open>pos\<close>.\<close>

fun legal_game :: "Engine \<Rightarrow> Position \<Rightarrow> Move list \<Rightarrow> bool" where
  "legal_game E pos [] = True"
| "legal_game E pos (m # ms) = (legal E pos m \<and> legal_game E (do_move E pos m) ms)"

text \<open>The number of moves of a database: the cells that are neither the first cell of
  a game nor a sentinel.\<close>

definition total_moves :: "(Move \<times> Move list) list \<Rightarrow> nat" where
  "total_moves gs = sum_list (map (\<lambda>g. length (snd g)) gs)"

section \<open>A small engine and sample data\<close>

text \<open>
  A stand-in for the collaborators, for evaluating the definitions on concrete inputs:
  a move only passes the turn, every move but the null move 65 is legal, the result is
  read from the low six bits of a game's first cell, and the parser and the decoders know
  a handful of inputs.
\<close>

definition ex_fen_pos :: Position where
  "ex_fen_pos =
     \<lparr>pieces_all = 2 ^ 40 + 2 ^ 17 + 2 ^ 21,
      pieces_color = (\<lambda>c. if c = WHITE then 2 ^ 17 + 2 ^ 21 else 2 ^ 40),
      pieces_type = (\<lambda>pt. if pt = PAWN then 2 ^ 40 else if pt = BISHOP then 2 ^ 17
                           else if pt = KNIGHT then 2 ^ 21 else 0),
      material_key = 7,
      side_to_move = WHITE\<rparr>"

definition ex_json_parse :: "string \<Rightarrow> json option" where
  \<open>ex_json_parse s =
     (if s = ''{}'' then Some (JObj [])
      else if s = ''{"fen": "8/8/p7/8/8/1B3N2/8/8"}''
        then Some (JObj [(''fen'', JStr ''8/8/p7/8/8/1B3N2/8/8'')])
      else if s = ''{"material": "KBNKP", "stm": "WHITE"}''
        then Some (JObj [(''material'', JStr ''KBNKP''), (''stm'', JStr ''WHITE'')])
      else if s = ''{"material": "KNNK", "result": "win"}''
        then Some (JObj [(''material'', JStr ''KNNK''), (''result'', JStr ''win'')])
      else if s = ''{"material": "KNNK"}''
        then Some (JObj [(''material'', JStr ''KNNK'')])
      else if s = ''{"stm": "black"}''
        then Some (JObj [(''stm'', JStr ''black'')])
      else None)\<close>

definition ex_engine :: Engine where
  "ex_engine =
     \<lparr>do_move = (\<lambda>pos m. pos\<lparr>side_to_move := (if side_to_move pos = WHITE then BLACK else WHITE)\<rparr>),
      legal = (\<lambda>pos m. m \<noteq> 65),
      game_result = (\<lambda>m. if m AND 63 = 0 then WhiteWin else if m AND 63 = 1 then BlackWin
                          else if m AND 63 = 2 then Draw else if m AND 63 = 3 then Unknown
                          else Invalid),
      json_parse = ex_json_parse,
      set_fen = (\<lambda>s. if s = ''8/8/p7/8/8/1B3N2/8/8'' then Inr ex_fen_pos else Inl DecodeError),
      set_material = (\<lambda>s. if s = ''KBNKP'' then Inr 7 else if s = ''KNNK'' then Inr 9
                           else Inl DecodeError)\<rparr>"

text \<open>Data before compilation: a memory, a database size, no rule yet.\<close>

definition ex_data :: "Move list \<Rightarrow> nat \<Rightarrow> Data" where
  "ex_data mem n =
     \<lparr>baseAddress = mem, dbSize = n, rules = [],
      pattern = \<lparr>all = 0, white = 0, pieces = []\<rparr>, matKey = 0, result = Invalid,
      movesCnt = 0, matchCnt = 0\<rparr>"

text \<open>The position of \<open>ex_fen_pos\<close> with the two kings added, on e1 and e8.\<close>

definition ex_root_pos :: Position where
  "ex_root_pos =
     \<lparr>pieces_all = 2 ^ 40 + 2 ^ 17 + 2 ^ 21 + 2 ^ 4 + 2 ^ 60,
      pieces_color = (\<lambda>c. if c = WHITE then 2 ^ 17 + 2 ^ 21 + 2 ^ 4 else 2 ^ 40 + 2 ^ 60),
      pieces_type = (\<lambda>pt. if pt = PAWN then 2 ^ 40 else if pt = BISHOP then 2 ^ 17
                           else if pt = KNIGHT then 2 ^ 21 else if pt = KING then 2 ^ 4 + 2 ^ 60
                           else 0),
      material_key = 7,
      side_to_move = WHITE\<rparr>"

text \<open>A memory with a sentinel, one game of one move and one more cell; the data that
  \<open>parse_rules\<close> compiles for it from the first sample query of the source.\<close>

definition ex_fen_data :: Data where
  "ex_fen_data =
     (ex_data [0, 64, 10, 0, 0] 4)
       \<lparr>pattern := \<lparr>all = 2 ^ 40 + 2 ^ 17 + 2 ^ 21, white = 2 ^ 17 + 2 ^ 21,
                    pieces = [(PAWN, 2 ^ 40), (KNIGHT, 2 ^ 21), (BISHOP, 2 ^ 17)]\<rparr>,
        rules := [RulePattern, RuleEnd]\<rparr>"

text \<open>
  A memory with a sentinel first, then one game won by White with the moves 10, 11, 65
  and 13, and one more cell; data with the rules of a side-to-move query, and with the
  rules of a query for the side to move and a win by Black.
\<close>

definition ex_game_mem :: "Move list" where
  "ex_game_mem = [0, 64, 10, 11, 65, 13, 0, 0]"

definition ex_stm_data :: Data where
  "ex_stm_data = (ex_data ex_game_mem 7)\<lparr>rules := [RuleWhite, RuleEnd]\<rparr>"

definition ex_result_data :: Data where
  "ex_result_data =
     (ex_data ex_game_mem 7)\<lparr>rules := [RuleWhite, RuleResult, RuleEnd], result := BlackWin\<rparr>"

text \<open>
  Two databases in the format of the spec, each followed by one readable cell. The first
  holds two games of two moves each, so that with two threads the second game begins
  exactly at the nominal end of the first thread's slice; its data carry the rules of a
  side-to-move query. The second holds three games of one, three and one moves; its data
  are compiled from the empty query.
\<close>

definition ex_two_games :: "(Move \<times> Move list) list" where
  "ex_two_games = [(64, [10, 11]), (64, [12, 13])]"

definition ex_two_games_data :: Data where
  "ex_two_games_data =
     (ex_data (db_of ex_two_games @ [0]) (length (db_of ex_two_games)))
       \<lparr>rules := [RuleWhite, RuleEnd]\<rparr>"

definition ex_three_games :: "(Move \<times> Move list) list" where
  "ex_three_games = [(64, [10]), (65, [12, 13, 14]), (66, [7])]"

definition ex_three_games_data :: Data where
  "ex_three_games_data =
     (ex_data (db_of ex_three_games @ [0]) (length (db_of ex_three_games)))
       \<lparr>rules := [RuleNone]\<rparr>"

section \<open>Properties of the query compiler\<close>

lemma rule_fen_rules:
  "rule_fen E j d = Inr d1 \<Longrightarrow>
     rules d1 = rules d @ (if present j ''fen'' then [RulePattern] else [])"
  by (auto simp: rule_fen_def present_def split: sum.splits if_splits)

lemma rule_material_rules:
  "rule_material E j d = Inr d1 \<Longrightarrow>
     rules d1 = rules d @ (if present j ''material'' then [RuleMaterial] else [])"
  by (auto simp: rule_material_def present_def split: sum.splits if_splits)

lemma rule_stm_rules:
  "rule_stm j d = Inr d1 \<Longrightarrow>
     rules d1 = rules d @ (if present j ''stm''
       then [if jfield j ''stm'' = Inr (JStr ''WHITE'') then RuleWhite else RuleBlack] else [])"
  by (auto simp: rule_stm_def present_def split: sum.splits if_splits)

lemma rule_result_rules:
  "rule_result j d = Inr d1 \<Longrightarrow>
     rules d1 = rules d @
       (if (case jfield j ''result'' of Inl e \<Rightarrow> False | Inr v \<Rightarrow> recognized_result v)
        then [RuleResult] else [])"
  by (auto simp: rule_result_def recognized_result_def Let_def split: sum.splits if_splits)

lemma parse_rules_Inr:
  assumes "parse_rules E d is = Inr d'"
  obtains j d1 d2 d3 d4 where "json_parse E is = Some j" "rule_fen E j d = Inr d1"
    "rule_material E j d1 = Inr d2" "rule_stm j d2 = Inr d3" "rule_result j d3 = Inr d4"
    "d' = d4\<lparr>rules := rules d4 @ [if length (rules d4) \<noteq> 0 then RuleEnd else RuleNone]\<rparr>"
  using assms unfolding parse_rules_def
  by (auto split: option.splits sum.splits)

lemma parse_rules_rules:
  assumes "parse_rules E d is = Inr d'"
  shows "\<exists>j. json_parse E is = Some j \<and>
           rules d' = rules d @ spec_program j @
             [if rules d @ spec_program j = [] then RuleNone else RuleEnd]"
proof -
  from assms obtain j d1 d2 d3 d4 where j: "json_parse E is = Some j"
    and s: "rule_fen E j d = Inr d1" "rule_material E j d1 = Inr d2" "rule_stm j d2 = Inr d3"
      "rule_result j d3 = Inr d4"
    and d': "d' = d4\<lparr>rules := rules d4 @ [if length (rules d4) \<noteq> 0 then RuleEnd else RuleNone]\<rparr>"
    by (rule parse_rules_Inr)
  have "rules d4 = rules d @ spec_program j"
    using rule_fen_rules [OF s(1)] rule_material_rules [OF s(2)] rule_stm_rules [OF s(3)]
      rule_result_rules [OF s(4)]
    unfolding spec_program_def by simp
  with d' j show ?thesis by simp
qed

text \<open>
  C6. Whenever \<open>parse_rules\<close> returns, the rules it has appended are the opcodes of the
  spec's program in the fixed order pattern, material, side to move, result, each present
  only if its field was recognized, followed by one last opcode, which is \<open>RuleEnd\<close> or
  \<open>RuleNone\<close>. Compiling into data without rules, the last opcode is \<open>RuleEnd\<close> when at
  least one predicate opcode was emitted and \<open>RuleNone\<close> when none was.
\<close>

theorem parse_rules_fixed_order:
  assumes "parse_rules E d is = Inr d'"
  shows "\<exists>j. json_parse E is = Some j \<and>
           rules d' = rules d @ spec_program j @
             [if rules d @ spec_program j = [] then RuleNone else RuleEnd] \<and>
           (last (rules d') = RuleEnd \<or> last (rules d') = RuleNone) \<and>
           (if rules d = []
            then last (rules d') = (if spec_program j = [] then RuleNone else RuleEnd)
            else last (rules d') = RuleEnd)"
proof -
  from parse_rules_rules [OF assms] obtain j where j: "json_parse E is = Some j"
    and r: "rules d' = rules d @ spec_program j @
             [if rules d @ spec_program j = [] then RuleNone else RuleEnd]"
    by blast
  from r have "last (rules d') = (if rules d @ spec_program j = [] then RuleNone else RuleEnd)"
    by simp
  with j r show ?thesis by auto
qed

theorem parse_rules_fixed_order_witness:
  \<open>parse_rules ex_engine (ex_data [] 0) ''{"material": "KBNKP", "stm": "WHITE"}''
     = Inr ((ex_data [] 0)\<lparr>matKey := 7, rules := [RuleMaterial, RuleWhite, RuleEnd]\<rparr>) \<and>
   (\<exists>j. json_parse ex_engine ''{"material": "KBNKP", "stm": "WHITE"}'' = Some j \<and>
      [RuleMaterial, RuleWhite, RuleEnd] = spec_program j @ [RuleEnd])\<close>
proof -
  have p: \<open>parse_rules ex_engine (ex_data [] 0) ''{"material": "KBNKP", "stm": "WHITE"}''
     = Inr ((ex_data [] 0)\<lparr>matKey := 7, rules := [RuleMaterial, RuleWhite, RuleEnd]\<rparr>)\<close>
    by (simp add: parse_rules_def ex_engine_def ex_json_parse_def ex_data_def rule_fen_def
        rule_material_def rule_stm_def rule_result_def)
  from parse_rules_fixed_order [OF p] p show ?thesis
    by (auto simp: ex_data_def split: if_splits)
qed

lemma map_of_filter_key:
  "map_of (filter (\<lambda>kv. fst kv \<noteq> r) kvs) k = (if k = r then None else map_of kvs k)"
  by (induction kvs) auto

lemma rule_result_unrecognized:
  assumes "jfield j ''result'' = Inr v" "\<not> recognized_result v"
  shows "rule_result j d = Inr d"
  using assms by (auto simp: rule_result_def recognized_result_def Let_def)

text \<open>
  C8. When the result field is present and its value is none of \<^verbatim>\<open>1-0\<close>, \<^verbatim>\<open>0-1\<close>,
  \<^verbatim>\<open>1/2-1/2\<close> and \<^verbatim>\<open>*\<close>, the block of the result field returns the data unchanged, without
  a fault, and \<open>parse_rules\<close> returns exactly what it returns for the same query with the
  result field removed.
\<close>

theorem parse_rules_unrecognized_result:
  assumes "json_parse E is = Some (JObj kvs)"
    and "map_of kvs ''result'' = Some v"
    and "\<not> recognized_result v"
    and "json_parse E is' = Some (JObj (filter (\<lambda>kv. fst kv \<noteq> ''result'') kvs))"
  shows "rule_result (JObj kvs) d3 = Inr d3 \<and> parse_rules E d is = parse_rules E d is'"
proof -
  let ?j = "JObj kvs" and ?j' = "JObj (filter (\<lambda>kv. fst kv \<noteq> ''result'') kvs)"
  have r: "rule_result ?j x = Inr x" for x
    using assms(2,3) by (intro rule_result_unrecognized [of _ v]) simp_all
  have r': "rule_result ?j' x = Inr x" for x
    by (simp add: rule_result_def map_of_filter_key)
  have f: "rule_fen E ?j' x = rule_fen E ?j x" for x
    by (simp add: rule_fen_def map_of_filter_key)
  have m: "rule_material E ?j' x = rule_material E ?j x" for x
    by (simp add: rule_material_def map_of_filter_key)
  have s: "rule_stm ?j' x = rule_stm ?j x" for x
    by (simp add: rule_stm_def map_of_filter_key)
  have "parse_rules E d is = parse_rules E d is'"
    by (simp add: parse_rules_def assms(1,4) f m s r r' cong: sum.case_cong)
  with r show ?thesis by simp
qed

theorem parse_rules_unrecognized_result_witness:
  \<open>rule_result (JObj [(''material'', JStr ''KNNK''), (''result'', JStr ''win'')]) (ex_data [] 0)
     = Inr (ex_data [] 0) \<and>
   parse_rules ex_engine (ex_data [] 0) ''{"material": "KNNK", "result": "win"}''
     = parse_rules ex_engine (ex_data [] 0) ''{"material": "KNNK"}'' \<and>
   parse_rules ex_engine (ex_data [] 0) ''{"material": "KNNK"}''
     = Inr ((ex_data [] 0)\<lparr>matKey := 9, rules := [RuleMaterial, RuleEnd]\<rparr>)\<close>
proof -
  have 1: \<open>json_parse ex_engine ''{"material": "KNNK", "result": "win"}''
      = Some (JObj [(''material'', JStr ''KNNK''), (''result'', JStr ''win'')])\<close>
    by (simp add: ex_engine_def ex_json_parse_def)
  have 2: "map_of [(''material'', JStr ''KNNK''), (''result'', JStr ''win'')] ''result''
      = Some (JStr ''win'')"
    by simp
  have 3: "\<not> recognized_result (JStr ''win'')"
    by (simp add: recognized_result_def)
  have 4: \<open>json_parse ex_engine ''{"material": "KNNK"}''
      = Some (JObj (filter (\<lambda>kv. fst kv \<noteq> ''result'')
          [(''material'', JStr ''KNNK''), (''result'', JStr ''win'')]))\<close>
    by (simp add: ex_engine_def ex_json_parse_def)
  have 5: \<open>parse_rules ex_engine (ex_data [] 0) ''{"material": "KNNK"}''
     = Inr ((ex_data [] 0)\<lparr>matKey := 9, rules := [RuleMaterial, RuleEnd]\<rparr>)\<close>
    by (simp add: parse_rules_def ex_engine_def ex_json_parse_def ex_data_def rule_fen_def
        rule_material_def rule_stm_def rule_result_def)
  from parse_rules_unrecognized_result [OF 1 2 3 4, of "ex_data [] 0" "ex_data [] 0"] 5
  show ?thesis by simp
qed

lemma parse_rules_Inl:
  assumes "parse_rules E d is = Inl e" "json_parse E is = Some j"
  shows "rule_fen E j d = Inl e
    \<or> (\<exists>d1. rule_fen E j d = Inr d1 \<and>
         (rule_material E j d1 = Inl e
          \<or> (\<exists>d2. rule_material E j d1 = Inr d2 \<and>
               (rule_stm j d2 = Inl e
                \<or> (\<exists>d3. rule_stm j d2 = Inr d3 \<and> rule_result j d3 = Inl e)))))"
  using assms unfolding parse_rules_def
  by (auto split: sum.splits)

lemma rule_result_object: "\<exists>d'. rule_result (JObj kvs) d = Inr d'"
  by (simp add: rule_result_def Let_def)

text \<open>
  C9. When the stm field is present with a value that is not empty and is not the string
  \<^verbatim>\<open>WHITE\<close>, the block of the stm field appends \<open>RuleBlack\<close> and raises nothing. So the
  compiled rules hold \<open>RuleBlack\<close> and not \<open>RuleWhite\<close> whenever \<open>parse_rules\<close> returns, and
  when \<open>parse_rules\<close> fails the fault was raised by the block of the fen field or by the
  block of the material field.
\<close>

theorem parse_rules_stm_black:
  assumes "json_parse E is = Some (JObj kvs)"
    and "map_of kvs ''stm'' = Some v"
    and "\<not> jempty v"
    and "v \<noteq> JStr ''WHITE''"
  shows "rule_stm (JObj kvs) d2 = Inr (d2\<lparr>rules := rules d2 @ [RuleBlack]\<rparr>) \<and>
    (case parse_rules E d is of
       Inr d' \<Rightarrow> RuleBlack \<in> set (drop (length (rules d)) (rules d'))
                 \<and> RuleWhite \<notin> set (drop (length (rules d)) (rules d'))
     | Inl e \<Rightarrow> rule_fen E (JObj kvs) d = Inl e
                 \<or> (\<exists>d1. rule_fen E (JObj kvs) d = Inr d1 \<and> rule_material E (JObj kvs) d1 = Inl e))"
proof -
  let ?j = "JObj kvs"
  have s: "rule_stm ?j x = Inr (x\<lparr>rules := rules x @ [RuleBlack]\<rparr>)" for x
    using assms(2,3,4) by (simp add: rule_stm_def)
  have p: "present ?j ''stm''" and w: "jfield ?j ''stm'' \<noteq> Inr (JStr ''WHITE'')"
    using assms(2,3,4) by (simp_all add: present_def)
  show ?thesis
  proof (cases "parse_rules E d is")
    case (Inr d')
    from parse_rules_rules [OF Inr] assms(1)
    have "rules d' = rules d @ spec_program ?j @
        [if rules d @ spec_program ?j = [] then RuleNone else RuleEnd]"
      by simp
    then have "drop (length (rules d)) (rules d') = spec_program ?j @
        [if rules d @ spec_program ?j = [] then RuleNone else RuleEnd]"
      by simp
    with p w have "RuleBlack \<in> set (drop (length (rules d)) (rules d'))"
      and "RuleWhite \<notin> set (drop (length (rules d)) (rules d'))"
      by (simp_all add: spec_program_def)
    with s Inr show ?thesis by simp
  next
    case (Inl e)
    from parse_rules_Inl [OF Inl assms(1)] s rule_result_object [of kvs]
    have "rule_fen E ?j d = Inl e
      \<or> (\<exists>d1. rule_fen E ?j d = Inr d1 \<and> rule_material E ?j d1 = Inl e)"
      by (metis Inl_Inr_False)
    with s Inl show ?thesis by simp
  qed
qed

theorem parse_rules_stm_black_witness:
  \<open>rule_stm (JObj [(''stm'', JStr ''black'')]) (ex_data [] 0)
     = Inr ((ex_data [] 0)\<lparr>rules := [RuleBlack]\<rparr>) \<and>
   parse_rules ex_engine (ex_data [] 0) ''{"stm": "black"}''
     = Inr ((ex_data [] 0)\<lparr>rules := [RuleBlack, RuleEnd]\<rparr>)\<close>
proof -
  have 1: \<open>json_parse ex_engine ''{"stm": "black"}'' = Some (JObj [(''stm'', JStr ''black'')])\<close>
    by (simp add: ex_engine_def ex_json_parse_def)
  have 2: "map_of [(''stm'', JStr ''black'')] ''stm'' = Some (JStr ''black'')"
    by simp
  have 3: "\<not> jempty (JStr ''black'')" and 4: "JStr ''black'' \<noteq> JStr ''WHITE''"
    by simp_all
  have 5: \<open>parse_rules ex_engine (ex_data [] 0) ''{"stm": "black"}''
     = Inr ((ex_data [] 0)\<lparr>rules := [RuleBlack, RuleEnd]\<rparr>)\<close>
    by (simp add: parse_rules_def ex_engine_def ex_json_parse_def ex_data_def rule_fen_def
        rule_material_def rule_stm_def rule_result_def)
  from parse_rules_stm_black [OF 1 2 3 4, of "ex_data [] 0" "ex_data [] 0"] 5
  show ?thesis by (simp add: ex_data_def)
qed

section \<open>Properties of the rules\<close>

lemma and_eq_iff_subset: "(a AND b = b) = mask_subset b a"
proof
  assume "a AND b = b"
  then have "bit b n \<longrightarrow> bit a n" for n
    by (metis bit_and_iff)
  then show "mask_subset b a" by (simp add: mask_subset_def)
next
  assume s: "mask_subset b a"
  show "a AND b = b"
  proof (rule bit_word_eqI)
    fix n assume "n < LENGTH(64)"
    with s show "bit (a AND b) n = bit b n"
      by (auto simp: mask_subset_def bit_and_iff)
  qed
qed

lemma pieces_loop_iff:
  "pieces_loop pos ps = list_all (\<lambda>p. mask_subset (snd p) (pieces_type pos (fst p))) ps"
  by (induction ps) (auto simp: and_eq_iff_subset)

text \<open>
  C1, as the code has it. The pattern rule lets the evaluation go on to the next rule
  exactly when each mask of the pattern is contained in the matching mask of the
  position: all pieces, white pieces, and each listed piece type. Otherwise the move
  fails. Equal masks are one way to pass, not the only one.
\<close>

theorem run_rules_pattern_subset:
  "run_rules d res pos (RulePattern # rs) =
     (if mask_subset (all (pattern d)) (pieces_all pos)
         \<and> mask_subset (white (pattern d)) (pieces_color pos WHITE)
         \<and> (\<forall>p \<in> set (pieces (pattern d)). mask_subset (snd p) (pieces_type pos (fst p)))
      then run_rules d res pos rs else Inr Failed)"
  by (simp add: and_eq_iff_subset pieces_loop_iff list_all_iff)

theorem run_rules_pattern_subset_witness:
  "mask_subset (all (pattern ex_fen_data)) (pieces_all ex_root_pos) \<and>
   mask_subset (white (pattern ex_fen_data)) (pieces_color ex_root_pos WHITE) \<and>
   mask_subset (2 ^ 40) (pieces_type ex_root_pos PAWN) \<and>
   mask_subset (2 ^ 21) (pieces_type ex_root_pos KNIGHT) \<and>
   mask_subset (2 ^ 17) (pieces_type ex_root_pos BISHOP) \<and>
   pieces (pattern ex_fen_data) = [(PAWN, 2 ^ 40), (KNIGHT, 2 ^ 21), (BISHOP, 2 ^ 17)] \<and>
   run_rules ex_fen_data WhiteWin ex_root_pos [RulePattern, RuleEnd] = Inr Matched"
proof -
  have 1: "mask_subset (all (pattern ex_fen_data)) (pieces_all ex_root_pos)"
    and 2: "mask_subset (white (pattern ex_fen_data)) (pieces_color ex_root_pos WHITE)"
    and 3: "mask_subset (2 ^ 40) (pieces_type ex_root_pos PAWN)"
    and 4: "mask_subset (2 ^ 21) (pieces_type ex_root_pos KNIGHT)"
    and 5: "mask_subset (2 ^ 17) (pieces_type ex_root_pos BISHOP)"
    by (simp_all add: and_eq_iff_subset [symmetric] ex_fen_data_def ex_root_pos_def ex_data_def)
  have 6: "pieces (pattern ex_fen_data) = [(PAWN, 2 ^ 40), (KNIGHT, 2 ^ 21), (BISHOP, 2 ^ 17)]"
    by (simp add: ex_fen_data_def)
  from 1 2 3 4 5 6
    run_rules_pattern_subset [of ex_fen_data WhiteWin ex_root_pos "[RuleEnd]"]
  show ?thesis by simp
qed

text \<open>
  C1, as the claim has it, fails. The query \<^verbatim>\<open>{"fen": "8/8/p7/8/8/1B3N2/8/8"}\<close> compiles
  to a pattern of three pieces. The position reached by the one move of the sample game
  holds these three pieces and the two kings: its masks contain the pattern's masks and
  differ from them, the rules report a match, and the scan counts it.
\<close>

theorem pattern_superset_matches:
  \<open>parse_rules ex_engine (ex_data [0, 64, 10, 0, 0] 4) ''{"fen": "8/8/p7/8/8/1B3N2/8/8"}''
     = Inr ex_fen_data \<and>
   pieces_all (do_move ex_engine ex_root_pos 10) AND all (pattern ex_fen_data)
     = all (pattern ex_fen_data) \<and>
   pieces_all (do_move ex_engine ex_root_pos 10) \<noteq> all (pattern ex_fen_data) \<and>
   pieces_color (do_move ex_engine ex_root_pos 10) WHITE \<noteq> white (pattern ex_fen_data) \<and>
   run_rules ex_fen_data WhiteWin (do_move ex_engine ex_root_pos 10) (rules ex_fen_data)
     = Inr Matched \<and>
   scan ex_engine ex_fen_data ex_root_pos 1 = Inr (1, 1)\<close>
proof -
  have \<open>parse_rules ex_engine (ex_data [0, 64, 10, 0, 0] 4) ''{"fen": "8/8/p7/8/8/1B3N2/8/8"}''
     = Inr ex_fen_data\<close>
    by (simp add: parse_rules_def ex_engine_def ex_json_parse_def ex_data_def rule_fen_def
        rule_material_def rule_stm_def rule_result_def ex_fen_data_def ex_fen_pos_def)
  moreover have "pieces_all (do_move ex_engine ex_root_pos 10) AND all (pattern ex_fen_data)
     = all (pattern ex_fen_data)"
    and "pieces_all (do_move ex_engine ex_root_pos 10) \<noteq> all (pattern ex_fen_data)"
    and "pieces_color (do_move ex_engine ex_root_pos 10) WHITE \<noteq> white (pattern ex_fen_data)"
    and "run_rules ex_fen_data WhiteWin (do_move ex_engine ex_root_pos 10) (rules ex_fen_data)
     = Inr Matched"
    by (simp_all add: ex_fen_data_def ex_engine_def ex_root_pos_def ex_data_def)
  moreover have "scan ex_engine ex_fen_data ex_root_pos 1 = Inr (1, 1)"
    by (simp add: scan_def run_threads_def search_def ex_fen_data_def ex_engine_def
        ex_root_pos_def ex_data_def move_to_next_game.simps main_loop.simps replay_game.simps
        skip_to_next.simps end_of_game.simps print_results_def MOVE_NONE_def)
  ultimately show ?thesis by simp
qed
section \<open>Properties of the replay of one game\<close>

lemma skip_to_next_sentinel:
  "skip_to_next mem data cnt = Inr (data', cnt') \<Longrightarrow> data' < length mem \<and> mem ! data' = MOVE_NONE"
proof (induction mem data cnt rule: skip_to_next.induct)
  case (1 mem data cnt)
  show ?case
  proof (cases "data + 1 < length mem \<and> mem ! (data + 1) \<noteq> MOVE_NONE")
    case True
    with "1.prems" have "skip_to_next mem (data + 1) (cnt + 1) = Inr (data', cnt')"
      by (subst (asm) skip_to_next.simps) simp
    with True "1.IH" show ?thesis by blast
  next
    case False
    with "1.prems" show ?thesis
      by (subst (asm) skip_to_next.simps) (auto split: if_splits)
  qed
qed

lemma run_rules_passing_prefix:
  "list_all (rule_passes d res pos) rs1 \<Longrightarrow>
     run_rules d res pos (rs1 @ rs) = run_rules d res pos rs"
proof (induction rs1)
  case Nil
  show ?case by simp
next
  case (Cons r rs1)
  from Cons.prems have r: "rule_passes d res pos r" and rs1: "list_all (rule_passes d res pos) rs1"
    by simp_all
  from r Cons.IH [OF rs1] show ?case
    by (cases r) (simp_all add: and_eq_iff_subset pieces_loop_iff)
qed

lemma run_rules_failing_rule:
  "\<not> rule_passes d res pos r \<Longrightarrow> r \<noteq> RuleEnd \<Longrightarrow>
     run_rules d res pos (r # rs) = Inr (if r = RuleResult then SkipToNext else Failed)"
  by (cases r) (auto simp: and_eq_iff_subset pieces_loop_iff)

lemma run_rules_SkipToNext:
  "run_rules d res pos rs = Inr SkipToNext \<Longrightarrow> RuleResult \<in> set rs \<and> res \<noteq> result d"
  by (induction d res pos rs rule: run_rules.induct) (auto split: if_splits)

lemma skip_to_next_layout:
  "mem = pre @ x # ms @ MOVE_NONE # post \<Longrightarrow> MOVE_NONE \<notin> set ms \<Longrightarrow>
     skip_to_next mem (length pre) cnt = Inr (length pre + length ms + 1, cnt + length ms)"
proof (induction ms arbitrary: pre x cnt)
  case Nil
  then show ?case
    by (subst skip_to_next.simps) (simp add: nth_append)
next
  case (Cons m ms)
  from Cons.prems have mem: "mem = (pre @ [x]) @ m # ms @ MOVE_NONE # post"
    and ms: "MOVE_NONE \<notin> set ms" and m: "m \<noteq> MOVE_NONE"
    by auto
  have "skip_to_next mem (length (pre @ [x])) (cnt + 1)
      = Inr (length (pre @ [x]) + length ms + 1, cnt + 1 + length ms)"
    by (rule Cons.IH [OF mem ms])
  moreover have "length pre + 1 < length mem" "mem ! (length pre + 1) = m"
    using Cons.prems(1) by (simp_all add: nth_append)
  ultimately show ?case
    using m by (subst skip_to_next.simps) simp
qed

lemma replay_game_sentinel:
  "data + 1 < length mem \<Longrightarrow> mem ! (data + 1) = MOVE_NONE \<Longrightarrow>
     replay_game E d mem res pos st data cnt mcnt = Inr (data + 1, cnt, mcnt)"
  by (subst replay_game.simps) simp

lemma replay_game_layout:
  "mem = pre @ x # ms @ MOVE_NONE # post \<Longrightarrow> MOVE_NONE \<notin> set ms \<Longrightarrow>
     replay_game E d mem res pos st (length pre) cnt mcnt =
       (case first_jump E d res pos st ms of
          Inl e \<Rightarrow> Inl e
        | Inr j \<Rightarrow> Inr (length pre + length ms + 1, cnt + length ms,
                         if j = Matched then mcnt + 1 else mcnt))"
proof (induction ms arbitrary: pre x pos st cnt)
  case Nil
  then show ?case
    by (subst replay_game.simps) (simp add: nth_append)
next
  case (Cons m ms)
  let ?pos = "do_move E pos m"
  from Cons.prems have mem: "mem = (pre @ [x]) @ m # ms @ MOVE_NONE # post"
    and ms: "MOVE_NONE \<notin> set ms" and m: "m \<noteq> MOVE_NONE"
    by auto
  have len: "length pre + 1 < length mem" and nth: "mem ! (length pre + 1) = m"
    using Cons.prems(1) by (simp_all add: nth_append)
  have skip: "skip_to_next mem (length pre + 1) (cnt + 1)
      = Inr (length pre + length ms + 2, cnt + 1 + length ms)"
    using skip_to_next_layout [OF mem ms, of "cnt + 1"] by simp
  have sent: "replay_game E d mem res ?pos (st + 1) (length pre + length ms + 1) c k
      = Inr (length pre + length ms + 2, c, k)" for c k
    using Cons.prems(1)
    by (subst replay_game.simps) (simp add: nth_append)
  have IH: "replay_game E d mem res ?pos (st + 1) (length pre + 1) (cnt + 1) mcnt =
       (case first_jump E d res ?pos (st + 1) ms of
          Inl e \<Rightarrow> Inl e
        | Inr j \<Rightarrow> Inr (length pre + 1 + length ms + 1, cnt + 1 + length ms,
                         if j = Matched then mcnt + 1 else mcnt))"
    using Cons.IH [OF mem ms, of ?pos "st + 1" "cnt + 1"] by (simp cong: sum.case_cong)
  show ?case
  proof (cases "legal E pos m \<and> st < 1024")
    case False
    with len nth m show ?thesis
      by (subst replay_game.simps) auto
  next
    case True
    show ?thesis
    proof (cases "run_rules d res ?pos (rules d)")
      case (Inl e)
      with True len nth m show ?thesis
        by (subst replay_game.simps) simp
    next
      case (Inr j)
      show ?thesis
      proof (cases j)
        case Failed
        with Inr True len nth m IH show ?thesis
          by (subst replay_game.simps) (simp split: sum.splits)
      next
        case SkipToNext
        with Inr True len nth m skip sent show ?thesis
          by (subst replay_game.simps) simp
      next
        case Matched
        with Inr True len nth m skip sent show ?thesis
          by (subst replay_game.simps) simp
      qed
    qed
  qed
qed

lemma first_jump_append:
  "all_fail E d res pos ms1 \<Longrightarrow> st + length ms1 \<le> 1024 \<Longrightarrow>
     first_jump E d res pos st (ms1 @ ms) =
       first_jump E d res (foldl (do_move E) pos ms1) (st + length ms1) ms"
  by (induction ms1 arbitrary: pos st) simp_all

lemma replay_game_matches:
  "replay_game E d mem res pos st data cnt mcnt = Inr (data', cnt', mcnt') \<Longrightarrow>
     mcnt' = mcnt \<or>
     (mcnt' = mcnt + 1 \<and> (\<exists>pos'. run_rules d res pos' (rules d) = Inr Matched))"
proof (induction E d mem res pos st data cnt mcnt rule: replay_game.induct)
  case (1 E d mem res pos st data cnt mcnt)
  let ?m = "mem ! (data + 1)"
  let ?pos = "do_move E pos ?m"
  show ?case
  proof (cases "data + 1 < length mem \<and> ?m \<noteq> MOVE_NONE \<and> legal E pos ?m \<and> \<not> 1024 \<le> st")
    case False
    with "1.prems" show ?thesis
      by (subst (asm) replay_game.simps) (auto split: if_splits)
  next
    case True
    note t = this
    show ?thesis
    proof (cases "run_rules d res ?pos (rules d)")
      case (Inl e)
      with t "1.prems" show ?thesis
        by (subst (asm) replay_game.simps) simp
    next
      case (Inr j)
      note rr = this
      show ?thesis
      proof (cases j)
        case Failed
        with t rr "1.prems"
        have "replay_game E d mem res ?pos (st + 1) (data + 1) (cnt + 1) mcnt = Inr (data', cnt', mcnt')"
          by (subst (asm) replay_game.simps) simp
        with "1.IH"(1) t rr Failed show ?thesis by blast
      next
        case SkipToNext
        show ?thesis
        proof (cases "skip_to_next mem (data + 1) (cnt + 1)")
          case (Inl e)
          with t rr SkipToNext "1.prems" show ?thesis
            by (subst (asm) replay_game.simps) simp
        next
          case (Inr p)
          obtain s c where p: "p = (s, c)" by (cases p)
          from Inr p have s: "s < length mem" "mem ! s = MOVE_NONE" "data + 1 < s"
            by (auto dest: skip_to_next_sentinel skip_to_next_gt)
          then have "replay_game E d mem res ?pos (st + 1) (s - 1) c mcnt = Inr (s, c, mcnt)"
            using replay_game_sentinel [of "s - 1" mem E d res ?pos "st + 1" c mcnt] by simp
          with t rr SkipToNext Inr p "1.prems" show ?thesis
            by (subst (asm) replay_game.simps) simp
        qed
      next
        case Matched
        show ?thesis
        proof (cases "skip_to_next mem (data + 1) (cnt + 1)")
          case (Inl e)
          with t rr Matched "1.prems" show ?thesis
            by (subst (asm) replay_game.simps) simp
        next
          case (Inr p)
          obtain s c where p: "p = (s, c)" by (cases p)
          from Inr p have s: "s < length mem" "mem ! s = MOVE_NONE" "data + 1 < s"
            by (auto dest: skip_to_next_sentinel skip_to_next_gt)
          then have "replay_game E d mem res ?pos (st + 1) (s - 1) c (mcnt + 1) = Inr (s, c, mcnt + 1)"
            using replay_game_sentinel [of "s - 1" mem E d res ?pos "st + 1" c "mcnt + 1"] by simp
          with t rr Matched Inr p "1.prems" have "mcnt' = mcnt + 1"
            by (subst (asm) replay_game.simps) simp
          with rr Matched show ?thesis by blast
        qed
      qed
    qed
  qed
qed

lemma replay_game_at_jump:
  assumes mem: "mem = pre @ x # (ms1 @ m # ms2) @ MOVE_NONE # post"
    and nz: "MOVE_NONE \<notin> set (ms1 @ m # ms2)"
    and fail: "all_fail E d res pos ms1"
    and st: "st + length ms1 < 1024"
    and legal: "legal E (foldl (do_move E) pos ms1) m"
    and jump: "run_rules d res (do_move E (foldl (do_move E) pos ms1) m) (rules d) = Inr j"
    and j: "j \<noteq> Failed"
  shows "replay_game E d mem res pos st (length pre) cnt mcnt =
    Inr (length pre + length ms1 + length ms2 + 2, cnt + length ms1 + 1 + length ms2,
         if j = Matched then mcnt + 1 else mcnt)"
proof -
  from st have st': "st + length ms1 \<le> 1024" by simp
  have "first_jump E d res pos st (ms1 @ m # ms2)
      = first_jump E d res (foldl (do_move E) pos ms1) (st + length ms1) (m # ms2)"
    by (rule first_jump_append [OF fail st'])
  also have "\<dots> = Inr j"
    using legal jump j st by (cases j) simp_all
  finally show ?thesis
    using replay_game_layout [OF mem nz, of E d res pos st cnt mcnt] by simp
qed

lemma replay_game_after_failures:
  assumes mem: "mem = pre @ x # (ms1 @ ms2) @ MOVE_NONE # post"
    and nz: "MOVE_NONE \<notin> set (ms1 @ ms2)"
    and fail: "all_fail E d res pos ms1"
    and st: "st + length ms1 \<le> 1024"
    and ms1: "ms1 \<noteq> []"
  shows "replay_game E d mem res pos st (length pre) cnt mcnt =
    replay_game E d mem res (foldl (do_move E) pos ms1) (st + length ms1)
      (length pre + length ms1) (cnt + length ms1) mcnt"
proof -
  from ms1 obtain ms0 m where ms0: "ms1 = ms0 @ [m]"
    by (metis rev_exhaust)
  from mem ms0 have mem': "mem = (pre @ x # ms0) @ m # ms2 @ MOVE_NONE # post"
    by simp
  from nz have nz': "MOVE_NONE \<notin> set ms2" by simp
  have "replay_game E d mem res pos st (length pre) cnt mcnt =
      (case first_jump E d res (foldl (do_move E) pos ms1) (st + length ms1) ms2 of
         Inl e \<Rightarrow> Inl e
       | Inr j \<Rightarrow> Inr (length pre + length (ms1 @ ms2) + 1, cnt + length (ms1 @ ms2),
                        if j = Matched then mcnt + 1 else mcnt))"
    using replay_game_layout [OF mem nz, of E d res pos st cnt mcnt]
      first_jump_append [OF fail st]
    by simp
  moreover have "replay_game E d mem res (foldl (do_move E) pos ms1) (st + length ms1)
        (length (pre @ x # ms0)) (cnt + length ms1) mcnt =
      (case first_jump E d res (foldl (do_move E) pos ms1) (st + length ms1) ms2 of
         Inl e \<Rightarrow> Inl e
       | Inr j \<Rightarrow> Inr (length (pre @ x # ms0) + length ms2 + 1, cnt + length ms1 + length ms2,
                        if j = Matched then mcnt + 1 else mcnt))"
    by (rule replay_game_layout [OF mem' nz'])
  ultimately show ?thesis
    using ms0 by (simp split: sum.splits)
qed

text \<open>
  C4. A game adds at most 1 to the match counter. Let a game lie in memory with its
  moves \<open>ms1 @ m # ms2\<close> before its sentinel, let the moves of \<open>ms1\<close> fail the rules, let
  the state buffer have room for them and for \<open>m\<close>, and let the rules reach \<open>RuleEnd\<close> at
  the position after \<open>m\<close>. Then the replay of the game ends on the game's sentinel with
  the match counter raised by exactly one, whatever the moves \<open>ms2\<close> are and whether or
  not the rules would hold again after them. And no replay of any game, from any cell of
  any memory, raises the match counter by more than one.
\<close>

theorem replay_game_one_match:
  assumes "mem = pre @ x # (ms1 @ m # ms2) @ MOVE_NONE # post"
    and "MOVE_NONE \<notin> set (ms1 @ m # ms2)"
    and "all_fail E d res pos ms1"
    and "st + length ms1 < 1024"
    and "legal E (foldl (do_move E) pos ms1) m"
    and "run_rules d res (do_move E (foldl (do_move E) pos ms1) m) (rules d) = Inr Matched"
  shows "replay_game E d mem res pos st (length pre) cnt mcnt =
      Inr (length pre + length ms1 + length ms2 + 2, cnt + length ms1 + 1 + length ms2, mcnt + 1)
    \<and> (\<forall>mem' res' pos' st' data' c k data'' c' k'.
          replay_game E d mem' res' pos' st' data' c k = Inr (data'', c', k') \<longrightarrow> k' \<le> k + 1)"
proof -
  have "replay_game E d mem res pos st (length pre) cnt mcnt =
      Inr (length pre + length ms1 + length ms2 + 2, cnt + length ms1 + 1 + length ms2, mcnt + 1)"
    using replay_game_at_jump [OF assms, of cnt mcnt] by simp
  moreover have "k' \<le> k + 1"
    if "replay_game E d mem' res' pos' st' data' c k = Inr (data'', c', k')"
    for mem' res' pos' st' data' c k data'' c' k'
    using replay_game_matches [OF that] by auto
  ultimately show ?thesis by blast
qed

theorem replay_game_one_match_witness:
  "run_rules ex_stm_data WhiteWin (foldl (do_move ex_engine) ex_root_pos [10, 11]) [RuleWhite, RuleEnd]
     = Inr Matched \<and>
   run_rules ex_stm_data WhiteWin (foldl (do_move ex_engine) ex_root_pos [10, 11, 65, 13])
     [RuleWhite, RuleEnd] = Inr Matched \<and>
   replay_game ex_engine ex_stm_data ex_game_mem WhiteWin ex_root_pos 0 1 0 0 = Inr (6, 4, 1)"
proof -
  have 1: "ex_game_mem = [0] @ 64 # ([10] @ 11 # [65, 13]) @ MOVE_NONE # [0]"
    by (simp add: ex_game_mem_def MOVE_NONE_def)
  have 2: "MOVE_NONE \<notin> set ([10] @ 11 # [65, 13])"
    by (simp add: MOVE_NONE_def)
  have 3: "all_fail ex_engine ex_stm_data WhiteWin ex_root_pos [10]"
    by (simp add: ex_engine_def ex_stm_data_def ex_root_pos_def)
  have 4: "0 + length [10 :: Move] < 1024"
    by simp
  have 5: "legal ex_engine (foldl (do_move ex_engine) ex_root_pos [10]) 11"
    by (simp add: ex_engine_def)
  have 6: "run_rules ex_stm_data WhiteWin
      (do_move ex_engine (foldl (do_move ex_engine) ex_root_pos [10]) 11) (rules ex_stm_data)
      = Inr Matched"
    by (simp add: ex_engine_def ex_stm_data_def ex_root_pos_def)
  have 7: "run_rules ex_stm_data WhiteWin (foldl (do_move ex_engine) ex_root_pos [10, 11, 65, 13])
     [RuleWhite, RuleEnd] = Inr Matched"
    by (simp add: ex_engine_def ex_stm_data_def ex_root_pos_def)
  from replay_game_one_match [OF 1 2 3 4 5 6, of 0 0] 6 7 show ?thesis
    by (simp add: ex_stm_data_def)
qed

lemma all_fail_append:
  "all_fail E d res pos (ms1 @ ms) =
     (all_fail E d res pos ms1 \<and> all_fail E d res (foldl (do_move E) pos ms1) ms)"
  by (induction ms1 arbitrary: pos) auto

text \<open>
  C5. Let a game lie in memory with its moves \<open>ms1 @ m # ms2\<close> before its sentinel, let
  the moves of \<open>ms1\<close> fail the rules, let the state buffer have room for them and for \<open>m\<close>,
  and let \<open>r\<close> be the first rule that does not hold at the position after \<open>m\<close>. If \<open>r\<close> is
  the result rule, the game's result differs from the target, and the replay ends on the
  game's sentinel with the match counter as it was, whatever the moves \<open>ms2\<close> are. If \<open>r\<close>
  is any other rule, only the move \<open>m\<close> is given up: the moves of \<open>ms2\<close> are played in turn
  from the position after \<open>m\<close> and the rules are evaluated after each of them, so that
  the outcome of the game is the first jump other than \<^verbatim>\<open>Failed\<close> along \<open>ms2\<close>, a match
  if that jump is \<open>Matched\<close>, and a fault if a move of \<open>ms2\<close> is illegal before it; this
  is also what the replay returns when it is entered at \<open>m\<close> with the position after
  \<open>m\<close>.
\<close>

theorem replay_game_rule_failure:
  assumes mem: "mem = pre @ x # (ms1 @ m # ms2) @ MOVE_NONE # post"
    and nz: "MOVE_NONE \<notin> set (ms1 @ m # ms2)"
    and fail: "all_fail E d res pos ms1"
    and st: "st + length ms1 < 1024"
    and legal: "legal E (foldl (do_move E) pos ms1) m"
    and rules: "rules d = rs1 @ r # rs2"
    and pass: "list_all (rule_passes d res (do_move E (foldl (do_move E) pos ms1) m)) rs1"
    and notpass: "\<not> rule_passes d res (do_move E (foldl (do_move E) pos ms1) m) r"
    and r: "r \<noteq> RuleEnd"
  shows "if r = RuleResult
    then res \<noteq> result d \<and>
      replay_game E d mem res pos st (length pre) cnt mcnt =
        Inr (length pre + length ms1 + length ms2 + 2, cnt + length ms1 + 1 + length ms2, mcnt)
    else replay_game E d mem res pos st (length pre) cnt mcnt =
        (case first_jump E d res (do_move E (foldl (do_move E) pos ms1) m)
                (st + length ms1 + 1) ms2 of
           Inl e \<Rightarrow> Inl e
         | Inr j \<Rightarrow>
             Inr (length pre + length ms1 + length ms2 + 2, cnt + length ms1 + 1 + length ms2,
                  if j = Matched then mcnt + 1 else mcnt))
      \<and> replay_game E d mem res pos st (length pre) cnt mcnt =
        replay_game E d mem res (do_move E (foldl (do_move E) pos ms1) m) (st + length ms1 + 1)
          (length pre + length ms1 + 1) (cnt + length ms1 + 1) mcnt"
proof -
  let ?posm = "do_move E (foldl (do_move E) pos ms1) m"
  have jump: "run_rules d res ?posm (rules d) = Inr (if r = RuleResult then SkipToNext else Failed)"
    unfolding rules using run_rules_passing_prefix [OF pass] run_rules_failing_rule [OF notpass r]
    by simp
  show ?thesis
  proof (cases "r = RuleResult")
    case True
    with jump have j: "run_rules d res ?posm (rules d) = Inr SkipToNext" by simp
    from notpass True have "res \<noteq> result d" by simp
    moreover have "replay_game E d mem res pos st (length pre) cnt mcnt =
        Inr (length pre + length ms1 + length ms2 + 2, cnt + length ms1 + 1 + length ms2, mcnt)"
      using replay_game_at_jump [OF mem nz fail st legal j, of cnt mcnt] by simp
    ultimately show ?thesis using True by simp
  next
    case False
    with jump have j: "run_rules d res ?posm (rules d) = Inr Failed" by simp
    have mem': "mem = pre @ x # ((ms1 @ [m]) @ ms2) @ MOVE_NONE # post"
      using mem by simp
    have nz': "MOVE_NONE \<notin> set ((ms1 @ [m]) @ ms2)"
      using nz by simp
    have fail': "all_fail E d res pos (ms1 @ [m])"
      using fail legal j by (simp add: all_fail_append)
    have st': "st + length (ms1 @ [m]) \<le> 1024"
      using st by simp
    have "first_jump E d res pos st ((ms1 @ [m]) @ ms2) =
        first_jump E d res (foldl (do_move E) pos (ms1 @ [m])) (st + length (ms1 @ [m])) ms2"
      by (rule first_jump_append [OF fail' st'])
    then have fj: "first_jump E d res pos st ((ms1 @ [m]) @ ms2) =
        first_jump E d res ?posm (st + length ms1 + 1) ms2"
      by (simp add: add.assoc)
    have "replay_game E d mem res pos st (length pre) cnt mcnt =
        (case first_jump E d res pos st ((ms1 @ [m]) @ ms2) of
           Inl e \<Rightarrow> Inl e
         | Inr j \<Rightarrow>
             Inr (length pre + length ((ms1 @ [m]) @ ms2) + 1, cnt + length ((ms1 @ [m]) @ ms2),
                  if j = Matched then mcnt + 1 else mcnt))"
      by (rule replay_game_layout [OF mem' nz'])
    then have outcome: "replay_game E d mem res pos st (length pre) cnt mcnt =
        (case first_jump E d res ?posm (st + length ms1 + 1) ms2 of
           Inl e \<Rightarrow> Inl e
         | Inr j \<Rightarrow>
             Inr (length pre + length ms1 + length ms2 + 2, cnt + length ms1 + 1 + length ms2,
                  if j = Matched then mcnt + 1 else mcnt))"
      unfolding fj by (simp split: sum.splits)
    have "replay_game E d mem res pos st (length pre) cnt mcnt =
        replay_game E d mem res (foldl (do_move E) pos (ms1 @ [m])) (st + length (ms1 @ [m]))
          (length pre + length (ms1 @ [m])) (cnt + length (ms1 @ [m])) mcnt"
      by (rule replay_game_after_failures [OF mem' nz' fail' st']) simp
    then have "replay_game E d mem res pos st (length pre) cnt mcnt =
        replay_game E d mem res ?posm (st + length ms1 + 1)
          (length pre + length ms1 + 1) (cnt + length ms1 + 1) mcnt"
      by (simp add: add.assoc)
    with outcome False show ?thesis by simp
  qed
qed

theorem replay_game_rule_failure_witness:
  "WhiteWin \<noteq> result ex_result_data \<and>
   replay_game ex_engine ex_result_data ex_game_mem WhiteWin ex_root_pos 0 1 0 0 = Inr (6, 4, 0) \<and>
   run_rules ex_stm_data WhiteWin (do_move ex_engine ex_root_pos 10) (rules ex_stm_data)
     = Inr Failed \<and>
   first_jump ex_engine ex_stm_data WhiteWin (do_move ex_engine ex_root_pos 10) 1 [11, 65, 13]
     = Inr Matched \<and>
   replay_game ex_engine ex_stm_data ex_game_mem WhiteWin ex_root_pos 0 1 0 0 = Inr (6, 4, 1) \<and>
   replay_game ex_engine ex_stm_data ex_game_mem WhiteWin (do_move ex_engine ex_root_pos 10) 1 2 1 0
     = Inr (6, 4, 1) \<and>
   first_jump ex_engine ex_stm_data WhiteWin (do_move ex_engine ex_root_pos 10) 1 [65, 13]
     = Inl AssertionFailed \<and>
   replay_game ex_engine ex_stm_data [0, 64, 10, 65, 13, 0, 0] WhiteWin ex_root_pos 0 1 0 0
     = Inl AssertionFailed"
proof -
  have a1: "ex_game_mem = [0] @ 64 # ([10] @ 11 # [65, 13]) @ MOVE_NONE # [0]"
    and b1: "ex_game_mem = [0] @ 64 # ([] @ 10 # [11, 65, 13]) @ MOVE_NONE # [0]"
    and c1: "[0, 64, 10, 65, 13, 0, 0] = [0] @ 64 # ([] @ 10 # [65, 13]) @ MOVE_NONE # [0 :: Move]"
    by (simp_all add: ex_game_mem_def MOVE_NONE_def)
  have a2: "MOVE_NONE \<notin> set ([10] @ 11 # [65, 13])"
    and b2: "MOVE_NONE \<notin> set ([] @ 10 # [11, 65, 13])"
    and c2: "MOVE_NONE \<notin> set ([] @ 10 # [65, 13])"
    by (simp_all add: MOVE_NONE_def)
  have a3: "all_fail ex_engine ex_result_data WhiteWin ex_root_pos [10]"
    and b3: "all_fail ex_engine ex_stm_data WhiteWin ex_root_pos []"
    by (simp_all add: ex_engine_def ex_result_data_def ex_root_pos_def)
  have a4: "0 + length [10 :: Move] < 1024" and b4: "0 + length ([] :: Move list) < 1024"
    by simp_all
  have a5: "legal ex_engine (foldl (do_move ex_engine) ex_root_pos [10]) 11"
    and b5: "legal ex_engine (foldl (do_move ex_engine) ex_root_pos []) 10"
    by (simp_all add: ex_engine_def)
  have a6: "rules ex_result_data = [RuleWhite] @ RuleResult # [RuleEnd]"
    and b6: "rules ex_stm_data = [] @ RuleWhite # [RuleEnd]"
    by (simp_all add: ex_result_data_def ex_stm_data_def)
  have a7: "list_all (rule_passes ex_result_data WhiteWin
      (do_move ex_engine (foldl (do_move ex_engine) ex_root_pos [10]) 11)) [RuleWhite]"
    and b7: "list_all (rule_passes ex_stm_data WhiteWin
      (do_move ex_engine (foldl (do_move ex_engine) ex_root_pos []) 10)) []"
    by (simp_all add: ex_engine_def ex_root_pos_def)
  have a8: "\<not> rule_passes ex_result_data WhiteWin
      (do_move ex_engine (foldl (do_move ex_engine) ex_root_pos [10]) 11) RuleResult"
    and b8: "\<not> rule_passes ex_stm_data WhiteWin
      (do_move ex_engine (foldl (do_move ex_engine) ex_root_pos []) 10) RuleWhite"
    by (simp_all add: ex_engine_def ex_root_pos_def ex_result_data_def)
  have a9: "RuleResult \<noteq> RuleEnd" and b9: "RuleWhite \<noteq> RuleEnd"
    by simp_all
  have f: "run_rules ex_stm_data WhiteWin (do_move ex_engine ex_root_pos 10) (rules ex_stm_data)
      = Inr Failed"
    by (simp add: ex_engine_def ex_stm_data_def ex_root_pos_def)
  have fj: "first_jump ex_engine ex_stm_data WhiteWin (do_move ex_engine ex_root_pos 10) 1
      [11, 65, 13] = Inr Matched"
    by (simp add: ex_engine_def ex_stm_data_def ex_root_pos_def)
  have fj': "first_jump ex_engine ex_stm_data WhiteWin (do_move ex_engine ex_root_pos 10) 1
      [65, 13] = Inl AssertionFailed"
    by (simp add: ex_engine_def ex_stm_data_def ex_root_pos_def)
  have ra: "WhiteWin \<noteq> result ex_result_data \<and>
      replay_game ex_engine ex_result_data ex_game_mem WhiteWin ex_root_pos 0 1 0 0 = Inr (6, 4, 0)"
    using replay_game_rule_failure [OF a1 a2 a3 a4 a5 a6 a7 a8 a9, of 0 0]
    by (simp add: eval_nat_numeral)
  have rb: "replay_game ex_engine ex_stm_data ex_game_mem WhiteWin ex_root_pos 0 1 0 0
        = Inr (6, 4, 1)"
    and rb': "replay_game ex_engine ex_stm_data ex_game_mem WhiteWin ex_root_pos 0 1 0 0
        = replay_game ex_engine ex_stm_data ex_game_mem WhiteWin
            (do_move ex_engine ex_root_pos 10) 1 2 1 0"
    using replay_game_rule_failure [OF b1 b2 b3 b4 b5 b6 b7 b8 b9, of 0 0] fj
    by (auto simp: eval_nat_numeral)
  from rb rb' have rb'': "replay_game ex_engine ex_stm_data ex_game_mem WhiteWin
      (do_move ex_engine ex_root_pos 10) 1 2 1 0 = Inr (6, 4, 1)"
    by simp
  have rc: "replay_game ex_engine ex_stm_data [0, 64, 10, 65, 13, 0, 0] WhiteWin ex_root_pos 0 1 0 0
      = Inl AssertionFailed"
    using replay_game_rule_failure [OF c1 c2 b3 b4 b5 b6 b7 b8 b9, of 0 0] fj'
    by (simp add: eval_nat_numeral)
  from ra rb rb'' rc f fj fj' show ?thesis
    by blast
qed

text \<open>
  C10. Let a game lie in memory with its moves \<open>ms1 @ m # ms2\<close> before its sentinel, let
  the moves of \<open>ms1\<close> fail the rules, let the state buffer have room for them and for \<open>m\<close>,
  and let the rules jump to \<^verbatim>\<open>SkipToNext\<close> at the position after \<open>m\<close>, from the result
  rule or after a match. Then the skipping loop, which takes neither a position nor the
  rules, adds one to the move counter for each move of \<open>ms2\<close>, and the replay ends on the
  game's sentinel with the move counter raised by the number of all moves of the game.
  Nothing is asked of the moves of \<open>ms2\<close> but that they are not the sentinel: they need
  not be legal, and they take no entry of the state buffer.
\<close>

theorem skipped_moves_counted:
  assumes "mem = pre @ x # (ms1 @ m # ms2) @ MOVE_NONE # post"
    and "MOVE_NONE \<notin> set (ms1 @ m # ms2)"
    and "all_fail E d res pos ms1"
    and "st + length ms1 < 1024"
    and "legal E (foldl (do_move E) pos ms1) m"
    and "run_rules d res (do_move E (foldl (do_move E) pos ms1) m) (rules d) = Inr j"
    and "j = SkipToNext \<or> j = Matched"
  shows "skip_to_next mem (length pre + length ms1 + 1) (cnt + length ms1 + 1) =
      Inr (length pre + length ms1 + length ms2 + 2, cnt + length ms1 + 1 + length ms2)
    \<and> replay_game E d mem res pos st (length pre) cnt mcnt =
      Inr (length pre + length ms1 + length ms2 + 2, cnt + length ms1 + 1 + length ms2,
           if j = Matched then mcnt + 1 else mcnt)"
proof -
  from assms(7) have j: "j \<noteq> Failed" by auto
  from assms(1) have mem': "mem = (pre @ x # ms1) @ m # ms2 @ MOVE_NONE # post"
    by simp
  from assms(2) have nz': "MOVE_NONE \<notin> set ms2" by simp
  have "skip_to_next mem (length (pre @ x # ms1)) (cnt + length ms1 + 1) =
      Inr (length (pre @ x # ms1) + length ms2 + 1, cnt + length ms1 + 1 + length ms2)"
    by (rule skip_to_next_layout [OF mem' nz'])
  then have "skip_to_next mem (length pre + length ms1 + 1) (cnt + length ms1 + 1) =
      Inr (length pre + length ms1 + length ms2 + 2, cnt + length ms1 + 1 + length ms2)"
    by simp
  with replay_game_at_jump [OF assms(1-6) j, of cnt mcnt] show ?thesis by simp
qed

theorem skipped_moves_counted_witness:
  "\<not> legal ex_engine (foldl (do_move ex_engine) ex_root_pos [10, 11]) 65 \<and>
   skip_to_next ex_game_mem 3 2 = Inr (6, 4) \<and>
   replay_game ex_engine ex_result_data ex_game_mem WhiteWin ex_root_pos 0 1 0 0 = Inr (6, 4, 0)"
proof -
  have 1: "ex_game_mem = [0] @ 64 # ([10] @ 11 # [65, 13]) @ MOVE_NONE # [0]"
    by (simp add: ex_game_mem_def MOVE_NONE_def)
  have 2: "MOVE_NONE \<notin> set ([10] @ 11 # [65, 13])"
    by (simp add: MOVE_NONE_def)
  have 3: "all_fail ex_engine ex_result_data WhiteWin ex_root_pos [10]"
    by (simp add: ex_engine_def ex_result_data_def ex_root_pos_def)
  have 4: "0 + length [10 :: Move] < 1024"
    by simp
  have 5: "legal ex_engine (foldl (do_move ex_engine) ex_root_pos [10]) 11"
    by (simp add: ex_engine_def)
  have 6: "run_rules ex_result_data WhiteWin
      (do_move ex_engine (foldl (do_move ex_engine) ex_root_pos [10]) 11) (rules ex_result_data)
      = Inr SkipToNext"
    by (simp add: ex_engine_def ex_result_data_def ex_root_pos_def)
  have 7: "SkipToNext = SkipToNext \<or> SkipToNext = Matched"
    by simp
  have 8: "\<not> legal ex_engine (foldl (do_move ex_engine) ex_root_pos [10, 11]) 65"
    by (simp add: ex_engine_def)
  from skipped_moves_counted [OF 1 2 3 4 5 6 7, of 0 0] 8 show ?thesis
    by (simp add: eval_nat_numeral)
qed

section \<open>Properties of the scan of a database\<close>

lemma move_to_next_game_layout:
  "mem = pre @ xs @ MOVE_NONE # post \<Longrightarrow> MOVE_NONE \<notin> set xs \<Longrightarrow>
     move_to_next_game mem (length pre) = Inr (length pre + length xs + 1)"
proof (induction xs arbitrary: pre)
  case Nil
  then show ?case
    by (subst move_to_next_game.simps) (simp add: nth_append)
next
  case (Cons x xs)
  from Cons.prems have mem: "mem = (pre @ [x]) @ xs @ MOVE_NONE # post"
    and xs: "MOVE_NONE \<notin> set xs" and x: "x \<noteq> MOVE_NONE"
    by auto
  have "move_to_next_game mem (length (pre @ [x])) = Inr (length (pre @ [x]) + length xs + 1)"
    by (rule Cons.IH [OF mem xs])
  moreover have "length pre < length mem" "mem ! length pre = x"
    using Cons.prems(1) by (simp_all add: nth_append)
  ultimately show ?case
    using x by (subst move_to_next_game.simps) simp
qed

lemma end_of_game_layout:
  "data + 1 < length mem \<Longrightarrow> mem ! (data + 1) \<noteq> MOVE_NONE \<or> end_ptr \<le> data + 1 \<Longrightarrow>
     end_of_game mem end_ptr data = Inr (data + 1)"
  by (subst end_of_game.simps) auto

lemma length_record_of [simp]: "length (record_of g) = length (snd g) + 2"
  by (simp add: record_of_def)

lemma db_of_Nil [simp]: "db_of [] = []"
  by (simp add: db_of_def)

lemma db_of_Cons [simp]: "db_of (g # gs) = record_of g @ db_of gs"
  by (simp add: db_of_def)

lemma db_of_append [simp]: "db_of (gs1 @ gs2) = db_of gs1 @ db_of gs2"
  by (simp add: db_of_def)

lemma main_loop_layout:
  "mem = pre @ db_of gs @ pad \<Longrightarrow> pad \<noteq> [] \<Longrightarrow> list_all wf_game gs \<Longrightarrow>
   end_ptr \<le> length pre + length (db_of gs) \<Longrightarrow>
     main_loop E d mem root end_ptr (length pre) cnt mcnt =
       play_games E d root end_ptr (length pre) gs cnt mcnt"
proof (induction gs arbitrary: pre cnt mcnt)
  case Nil
  then show ?case
    by (subst main_loop.simps) simp
next
  case (Cons g gs)
  obtain r ms where g: "g = (r, ms)" by (cases g)
  from Cons.prems(3) have wfg: "wf_game g" and wf: "list_all wf_game gs"
    by simp_all
  from wfg g have r: "r \<noteq> MOVE_NONE" and ms: "MOVE_NONE \<notin> set ms"
    by (simp_all add: wf_game_def)
  from Cons.prems(1) g have mem: "mem = pre @ r # ms @ MOVE_NONE # (db_of gs @ pad)"
    by (simp add: record_of_def)
  from Cons.prems(1) g have mem': "mem = (pre @ record_of g) @ db_of gs @ pad"
    by simp
  have len: "length pre < length mem" and nth: "mem ! length pre = r"
    using mem by (simp_all add: nth_append)
  show ?case
  proof (cases "length pre < end_ptr")
    case False
    then show ?thesis
      by (subst main_loop.simps) simp
  next
    case True
    have replay: "replay_game E d mem (game_result E r) root 0 (length pre) cnt mcnt =
       (case first_jump E d (game_result E r) root 0 ms of
          Inl e \<Rightarrow> Inl e
        | Inr j \<Rightarrow> Inr (length pre + length ms + 1, cnt + length ms,
                         if j = Matched then mcnt + 1 else mcnt))"
      by (rule replay_game_layout [OF mem ms])
    have next_cell: "mem ! (length pre + length ms + 2) \<noteq> MOVE_NONE
        \<or> end_ptr \<le> length pre + length ms + 2"
    proof (cases gs)
      case Nil
      with Cons.prems(4) g show ?thesis by simp
    next
      case (Cons g' gs')
      with wf have "fst g' \<noteq> MOVE_NONE" by (simp add: wf_game_def)
      moreover from mem' Cons g have "mem ! (length pre + length ms + 2) = fst g'"
        by (simp add: nth_append record_of_def)
      ultimately show ?thesis by simp
    qed
    have "length pre + length ms + 2 < length mem"
      using mem Cons.prems(2) by (cases pad) simp_all
    with next_cell
    have eog: "end_of_game mem end_ptr (length pre + length ms + 1) = Inr (length pre + length ms + 2)"
      using end_of_game_layout [of "length pre + length ms + 1" mem end_ptr] by simp
    have IH: "main_loop E d mem root end_ptr (length pre + length ms + 2) c k =
        play_games E d root end_ptr (length pre + length ms + 2) gs c k" for c k
      using Cons.IH [OF mem' Cons.prems(2) wf, of c k] Cons.prems(4) g by simp
    show ?thesis
    proof (cases "first_jump E d (game_result E r) root 0 ms")
      case (Inl e)
      with True len nth r replay g show ?thesis
        by (subst main_loop.simps) simp
    next
      case (Inr j)
      with True len nth r replay eog IH g show ?thesis
        by (subst main_loop.simps) simp
    qed
  qed
qed

lemma move_to_next_game_db:
  "mem = pre @ db_of gs @ pad \<Longrightarrow> list_all wf_game gs \<Longrightarrow>
   length pre \<le> start \<Longrightarrow> start < length pre + length (db_of gs) \<Longrightarrow>
     \<exists>pre'. mem = pre' @ db_of (snd (games_after start (length pre) gs)) @ pad
       \<and> length pre' = fst (games_after start (length pre) gs)
       \<and> move_to_next_game mem start = Inr (length pre')"
proof (induction gs arbitrary: pre)
  case Nil
  then show ?case by simp
next
  case (Cons g gs)
  obtain r ms where g: "g = (r, ms)" by (cases g)
  from Cons.prems(2) have wfg: "wf_game g" and wf: "list_all wf_game gs"
    by simp_all
  from wfg g have nz: "MOVE_NONE \<notin> set (r # ms)"
    by (auto simp: wf_game_def)
  from Cons.prems(1) have mem': "mem = (pre @ record_of g) @ db_of gs @ pad"
    by simp
  show ?case
  proof (cases "start < length pre + length (record_of g)")
    case True
    define k where "k = start - length pre"
    from True Cons.prems(3) g have k: "k \<le> length (r # ms)" and start: "start = length pre + k"
      by (simp_all add: k_def)
    have "mem = (pre @ take k (r # ms)) @ drop k (r # ms) @ MOVE_NONE # (db_of gs @ pad)"
      using Cons.prems(1) g by (simp add: record_of_def del: take_Suc_Cons drop_Suc_Cons)
    moreover have "MOVE_NONE \<notin> set (drop k (r # ms))"
      using nz by (meson in_set_dropD)
    ultimately have "move_to_next_game mem (length (pre @ take k (r # ms)))
        = Inr (length (pre @ take k (r # ms)) + length (drop k (r # ms)) + 1)"
      by (rule move_to_next_game_layout)
    moreover have "length (pre @ take k (r # ms)) = start"
      using k start by simp
    moreover have "length (pre @ take k (r # ms)) + length (drop k (r # ms)) + 1
        = length (pre @ record_of g)"
      using k g by simp
    ultimately have "move_to_next_game mem start = Inr (length (pre @ record_of g))"
      by simp
    with True mem' show ?thesis
      by (intro exI [of _ "pre @ record_of g"]) simp
  next
    case False
    with Cons.prems(4) have "length (pre @ record_of g) \<le> start"
      and "start < length (pre @ record_of g) + length (db_of gs)"
      by simp_all
    from Cons.IH [OF mem' wf this] False show ?thesis
      by simp
  qed
qed

lemma games_after_subset: "set (snd (games_after start off gs)) \<subseteq> set gs"
  by (induction gs arbitrary: off) auto

lemma slice_start_less:
  assumes "0 < (s::nat)" "i < n"
  shows "i * (s div n) < s"
proof (cases "s div n = 0")
  case True
  with assms show ?thesis by simp
next
  case False
  from assms(2) have "i * (s div n) < n * (s div n)"
    using False by simp
  also have "\<dots> \<le> s" by simp
  finally show ?thesis .
qed

lemma slice_end_le:
  assumes "i < (n::nat)"
  shows "i * (s div n) + s div n \<le> s"
proof -
  have "i * (s div n) + s div n = (i + 1) * (s div n)" by simp
  also from assms have "\<dots> \<le> n * (s div n)"
    by (intro mult_le_mono1) simp
  also have "\<dots> \<le> s" by simp
  finally show ?thesis .
qed

text \<open>
  The scan of one thread over a well-formed database, followed by at least one readable
  cell: the thread plays the games that follow the game in which its nominal start lies,
  as long as they begin below its nominal end.
\<close>

lemma search_layout:
  assumes mem: "baseAddress d = db_of gs @ pad"
    and size: "dbSize d = length (db_of gs)"
    and pad: "pad \<noteq> []"
    and wf: "list_all wf_game gs"
    and gs: "gs \<noteq> []"
    and n: "i < n"
  shows "search E n \<lparr>idx = i, scout = d, rootPos = root\<rparr> =
    (case play_games E d root (if i = n - 1 then dbSize d else i * (dbSize d div n) + dbSize d div n)
            (fst (games_after (i * (dbSize d div n)) 0 gs))
            (snd (games_after (i * (dbSize d div n)) 0 gs)) 0 0 of
       Inl e \<Rightarrow> Inl e
     | Inr (c, k) \<Rightarrow> Inr \<lparr>idx = i, scout = d\<lparr>movesCnt := c, matchCnt := k\<rparr>, rootPos = root\<rparr>)"
proof -
  let ?start = "i * (dbSize d div n)"
  let ?end = "if i = n - 1 then dbSize d else ?start + dbSize d div n"
  from gs have "0 < length (db_of gs)" by (cases gs) simp_all
  with size have "0 < dbSize d" by simp
  then have start: "?start < length (db_of gs)"
    using slice_start_less [OF _ n] size by simp
  have mem0: "baseAddress d = [] @ db_of gs @ pad"
    using mem by simp
  from move_to_next_game_db [OF mem0 wf _ _, of ?start] start
  obtain pre' where pre': "baseAddress d = pre' @ db_of (snd (games_after ?start 0 gs)) @ pad"
    "length pre' = fst (games_after ?start 0 gs)"
    "move_to_next_game (baseAddress d) ?start = Inr (length pre')"
    by auto
  have wf': "list_all wf_game (snd (games_after ?start 0 gs))"
    using wf games_after_subset [of ?start 0 gs] by (auto simp: list_all_iff)
  have "length (baseAddress d) = length pre' + length (db_of (snd (games_after ?start 0 gs))) + length pad"
    using pre'(1) by (metis length_append add.assoc)
  moreover have "length (baseAddress d) = length (db_of gs) + length pad"
    using mem by simp
  ultimately have total: "length pre' + length (db_of (snd (games_after ?start 0 gs))) = dbSize d"
    using size by simp
  have "?end \<le> dbSize d"
    using slice_end_le [OF n, of "dbSize d"] by simp
  with total have le: "?end \<le> length pre' + length (db_of (snd (games_after ?start 0 gs)))"
    by simp
  have "main_loop E d (baseAddress d) root ?end (length pre') 0 0 =
      play_games E d root ?end (length pre') (snd (games_after ?start 0 gs)) 0 0"
    by (rule main_loop_layout [OF pre'(1) pad wf' le])
  with pre'(2,3) n show ?thesis
    by (simp add: search_def Let_def cong: sum.case_cong)
qed

lemma main_loop_no_match:
  "\<forall>res pos. run_rules d res pos (rules d) \<noteq> Inr Matched \<Longrightarrow>
   main_loop E d mem root end_ptr data cnt mcnt = Inr (c, k) \<Longrightarrow> k = mcnt"
proof (induction E d mem root end_ptr data cnt mcnt rule: main_loop.induct)
  case (1 E d mem root end_ptr data cnt mcnt)
  show ?case
  proof (cases "data < end_ptr \<and> data < length mem \<and> mem ! data \<noteq> MOVE_NONE")
    case False
    with "1.prems"(2) show ?thesis
      by (subst (asm) main_loop.simps) (auto split: if_splits)
  next
    case True
    note t = this
    show ?thesis
    proof (cases "replay_game E d mem (game_result E (mem ! data)) root 0 data cnt mcnt")
      case (Inl e)
      with t "1.prems"(2) show ?thesis
        by (subst (asm) main_loop.simps) simp
    next
      case (Inr p)
      obtain data' cnt' mcnt' where p: "p = (data', cnt', mcnt')" by (cases p)
      from replay_game_matches [of E d mem _ root 0 data cnt mcnt data' cnt' mcnt'] Inr p "1.prems"(1)
      have same: "mcnt' = mcnt" by auto
      show ?thesis
      proof (cases "end_of_game mem end_ptr data'")
        case (Inl e)
        with t Inr p "1.prems"(2) show ?thesis
          by (subst (asm) main_loop.simps) simp
      next
        case (Inr data'')
        note eog = this
        from t \<open>replay_game E d mem (game_result E (mem ! data)) root 0 data cnt mcnt = Inr p\<close>
          p eog "1.prems"(2)
        have "main_loop E d mem root end_ptr data'' cnt' mcnt' = Inr (c, k)"
          by (subst (asm) main_loop.simps) simp
        with "1.IH" [OF _ _ _ _ _ _ eog "1.prems"(1)] t
          \<open>replay_game E d mem (game_result E (mem ! data)) root 0 data cnt mcnt = Inr p\<close> p
        have "k = mcnt'" by simp
        with same show ?thesis by simp
      qed
    qed
  qed
qed

lemma search_no_match:
  assumes "\<forall>res pos. run_rules (scout th) res pos (rules (scout th)) \<noteq> Inr Matched"
    and "search E n th = Inr th'"
  shows "matchCnt (scout th') = 0"
proof -
  from assms(2) obtain data c k where
    "main_loop E (scout th) (baseAddress (scout th)) (rootPos th)
       (if idx th = n - 1 then dbSize (scout th)
        else idx th * (dbSize (scout th) div n) + dbSize (scout th) div n) data 0 0 = Inr (c, k)"
    and th': "th' = th\<lparr>scout := (scout th)\<lparr>movesCnt := c, matchCnt := k\<rparr>\<rparr>"
    by (auto simp: search_def Let_def split: if_splits sum.splits)
  from main_loop_no_match [OF assms(1) this(1)] th' show ?thesis by simp
qed

lemma collect_Inr:
  "collect rs = Inr xs \<Longrightarrow> rs = map Inr xs"
  by (induction rs arbitrary: xs) (auto split: sum.splits)

lemma collect_map_Inr: "collect (map Inr xs) = Inr xs"
  by (induction xs) simp_all

lemma map_all_Inr:
  "(\<And>x. x \<in> set xs \<Longrightarrow> \<exists>y. f x = Inr y) \<Longrightarrow> \<exists>ys. map f xs = map Inr ys"
proof (induction xs)
  case Nil
  show ?case by simp
next
  case (Cons x xs)
  from Cons.prems obtain y where "f x = Inr y" by auto
  moreover from Cons obtain ys where "map f xs = map Inr ys" by auto
  ultimately have "map f (x # xs) = map Inr (y # ys)" by simp
  then show ?case by blast
qed

lemma scan_no_match:
  assumes "\<forall>res pos. run_rules d res pos (rules d) \<noteq> Inr Matched"
    and "scan E d root n = Inr (c, k)"
  shows "k = 0"
proof -
  from assms(2) obtain ths where ths: "run_threads E d root n = Inr ths"
    and k: "k = sum_list (map (\<lambda>th. matchCnt (scout th)) ths)"
    by (auto simp: scan_def print_results_def split: sum.splits)
  from ths have m: "map (\<lambda>i. search E n \<lparr>idx = i, scout = d, rootPos = root\<rparr>) [0 ..< n] = map Inr ths"
    unfolding run_threads_def by (rule collect_Inr)
  have "matchCnt (scout th') = 0" if "th' \<in> set ths" for th'
  proof -
    from that have "Inr th' \<in> set (map Inr ths :: (fault + Thread) list)" by simp
    with m obtain i where "search E n \<lparr>idx = i, scout = d, rootPos = root\<rparr> = Inr th'"
      by (metis (no_types, lifting) imageE list.set_map)
    with search_no_match [of "\<lparr>idx = i, scout = d, rootPos = root\<rparr>" E n th'] assms(1)
    show ?thesis by simp
  qed
  then have "sum_list (map (\<lambda>th. matchCnt (scout th)) ths) = 0"
    by (simp add: sum_list_eq_0_iff)
  with k show ?thesis by simp
qed

lemma first_jump_RuleNone:
  "rules d = [RuleNone] \<Longrightarrow> legal_game E pos ms \<Longrightarrow> st + length ms \<le> 1024 \<Longrightarrow>
     first_jump E d res pos st ms = Inr Failed"
  by (induction ms arbitrary: pos st) simp_all

lemma play_games_RuleNone:
  "rules d = [RuleNone] \<Longrightarrow>
   list_all (\<lambda>g. legal_game E root (snd g) \<and> length (snd g) \<le> 1024) gs \<Longrightarrow>
     \<exists>c. play_games E d root end_ptr off gs cnt mcnt = Inr (c, mcnt)"
proof (induction gs arbitrary: off cnt)
  case Nil
  show ?case by simp
next
  case (Cons g gs)
  from Cons.prems have "first_jump E d (game_result E (fst g)) root 0 (snd g) = Inr Failed"
    by (simp add: first_jump_RuleNone)
  moreover from Cons.prems Cons.IH
  have "\<exists>c. play_games E d root end_ptr (off + length (record_of g)) gs (cnt + length (snd g)) mcnt
      = Inr (c, mcnt)"
    by simp
  ultimately show ?case by simp
qed

lemma scan_RuleNone_returns:
  assumes mem: "baseAddress d = db_of gs @ pad"
    and size: "dbSize d = length (db_of gs)"
    and pad: "pad \<noteq> []"
    and wf: "list_all wf_game gs"
    and gs: "gs \<noteq> []"
    and legal: "list_all (\<lambda>g. legal_game E root (snd g) \<and> length (snd g) \<le> 1024) gs"
    and rules: "rules d = [RuleNone]"
  shows "\<exists>c. scan E d root n = Inr (c, 0)"
proof -
  have "\<exists>th'. search E n \<lparr>idx = i, scout = d, rootPos = root\<rparr> = Inr th'" if "i < n" for i
  proof -
    let ?rest = "snd (games_after (i * (dbSize d div n)) 0 gs)"
    have "list_all (\<lambda>g. legal_game E root (snd g) \<and> length (snd g) \<le> 1024) ?rest"
      using legal games_after_subset [of "i * (dbSize d div n)" 0 gs] by (auto simp: list_all_iff)
    from play_games_RuleNone [OF rules this] search_layout [OF mem size pad wf gs that, of E root]
    show ?thesis by (metis (no_types, lifting) old.sum.simps(6) case_prod_conv)
  qed
  then have "\<exists>ths. map (\<lambda>i. search E n \<lparr>idx = i, scout = d, rootPos = root\<rparr>) [0 ..< n] = map Inr ths"
    by (intro map_all_Inr) simp
  then obtain ths where "run_threads E d root n = Inr ths"
    by (auto simp: run_threads_def collect_map_Inr)
  then obtain c k where ck: "scan E d root n = Inr (c, k)"
    by (simp add: scan_def print_results_def)
  have "\<forall>res pos. run_rules d res pos (rules d) \<noteq> Inr Matched"
    using rules by simp
  from scan_no_match [OF this ck] ck show ?thesis by simp
qed

text \<open>
  C7. A query that parses to an object (or to null) in which none of the fields fen,
  material, stm and result is present compiles, into data without rules, to the program
  whose only opcode is \<open>RuleNone\<close>. With that program the scan of a well-formed database
  of legal games of at most 1024 moves each, followed by a readable cell, returns with 0
  matches, for any number of threads; and whatever the memory holds, a scan with that
  program that returns a result returns 0 matches.
\<close>

theorem empty_query_no_match:
  assumes "json_parse E is = Some j"
    and "j = JNull \<or> (\<exists>kvs. j = JObj kvs)"
    and "\<not> present j ''fen''" and "\<not> present j ''material''"
    and "\<not> present j ''stm''" and "\<not> present j ''result''"
    and "rules d = []"
    and "baseAddress d = db_of gs @ pad" and "dbSize d = length (db_of gs)" and "pad \<noteq> []"
    and "list_all wf_game gs" and "gs \<noteq> []"
    and "list_all (\<lambda>g. legal_game E root (snd g) \<and> length (snd g) \<le> 1024) gs"
  shows "parse_rules E d is = Inr (d\<lparr>rules := [RuleNone]\<rparr>)
    \<and> (\<exists>c. scan E (d\<lparr>rules := [RuleNone]\<rparr>) root n = Inr (c, 0))
    \<and> (\<forall>d0 root0 n0 c k. rules d0 = [RuleNone] \<longrightarrow> scan E d0 root0 n0 = Inr (c, k) \<longrightarrow> k = 0)"
proof -
  from assms(2) have ok: "\<And>k. \<exists>v. jfield j k = Inr v" by auto
  have "rule_fen E j d = Inr d"
    using ok [of "''fen''"] assms(3) by (auto simp: rule_fen_def present_def)
  moreover have "rule_material E j d = Inr d"
    using ok [of "''material''"] assms(4) by (auto simp: rule_material_def present_def)
  moreover have "rule_stm j d = Inr d"
    using ok [of "''stm''"] assms(5) by (auto simp: rule_stm_def present_def)
  moreover have "rule_result j d = Inr d"
    using ok [of "''result''"] assms(6) by (auto simp: rule_result_def present_def)
  ultimately have "parse_rules E d is = Inr (d\<lparr>rules := [RuleNone]\<rparr>)"
    using assms(1,7) by (simp add: parse_rules_def)
  moreover have "\<exists>c. scan E (d\<lparr>rules := [RuleNone]\<rparr>) root n = Inr (c, 0)"
    using assms(8-13) by (intro scan_RuleNone_returns [of _ gs pad]) simp_all
  moreover have "k = 0" if "rules d0 = [RuleNone]" "scan E d0 root0 n0 = Inr (c, k)"
    for d0 root0 n0 c k
    using that by (intro scan_no_match [of d0 E root0 n0 c k]) simp_all
  ultimately show ?thesis by blast
qed

theorem empty_query_no_match_witness:
  "parse_rules ex_engine (ex_three_games_data\<lparr>rules := []\<rparr>) ''{}'' = Inr ex_three_games_data \<and>
   scan ex_engine ex_three_games_data ex_root_pos 1 = Inr (4, 0) \<and>
   scan ex_engine ex_three_games_data ex_root_pos 2 = Inr (4, 0)"
proof -
  let ?d = "ex_three_games_data\<lparr>rules := []\<rparr>"
  have 1: "json_parse ex_engine ''{}'' = Some (JObj [])"
    by (simp add: ex_engine_def ex_json_parse_def)
  have 2: "JObj [] = JNull \<or> (\<exists>kvs. JObj [] = JObj kvs)"
    by simp
  have 3: "\<not> present (JObj []) ''fen''" and 4: "\<not> present (JObj []) ''material''"
    and 5: "\<not> present (JObj []) ''stm''" and 6: "\<not> present (JObj []) ''result''"
    by (simp_all add: present_def)
  have 7: "rules ?d = []" by simp
  have 8: "baseAddress ?d = db_of ex_three_games @ [0]"
    and 9: "dbSize ?d = length (db_of ex_three_games)"
    by (simp_all add: ex_three_games_data_def ex_data_def)
  have 10: "[0 :: Move] \<noteq> []" by simp
  have 11: "list_all wf_game ex_three_games"
    by (simp add: ex_three_games_def wf_game_def MOVE_NONE_def)
  have 12: "ex_three_games \<noteq> []"
    by (simp add: ex_three_games_def)
  have 13: "list_all (\<lambda>g. legal_game ex_engine ex_root_pos (snd g) \<and> length (snd g) \<le> 1024)
      ex_three_games"
    by (simp add: ex_three_games_def ex_engine_def)
  have d: "?d\<lparr>rules := [RuleNone]\<rparr> = ex_three_games_data"
    by (simp add: ex_three_games_data_def)
  have s1: "scan ex_engine ex_three_games_data ex_root_pos 1 = Inr (4, 0)"
    by (simp add: scan_def run_threads_def search_def ex_three_games_data_def ex_three_games_def
        db_of_def record_of_def ex_engine_def ex_root_pos_def ex_data_def
        move_to_next_game.simps main_loop.simps replay_game.simps skip_to_next.simps
        end_of_game.simps print_results_def MOVE_NONE_def)
  have s2: "scan ex_engine ex_three_games_data ex_root_pos 2 = Inr (4, 0)"
    by (simp add: scan_def run_threads_def search_def ex_three_games_data_def ex_three_games_def
        db_of_def record_of_def ex_engine_def ex_root_pos_def ex_data_def
        move_to_next_game.simps main_loop.simps replay_game.simps skip_to_next.simps
        end_of_game.simps print_results_def MOVE_NONE_def upt_rec)
  from empty_query_no_match [OF 1 2 3 4 5 6 7 8 9 10 11 12 13, of 1] d s1 s2
  show ?thesis by simp
qed

lemma play_games_all:
  "off + length (db_of gs) \<le> end_ptr \<Longrightarrow>
   play_games E d root end_ptr off gs cnt mcnt = Inr (c, k) \<Longrightarrow> c = cnt + total_moves gs"
proof (induction gs arbitrary: off cnt mcnt)
  case Nil
  then show ?case by (simp add: total_moves_def)
next
  case (Cons g gs)
  from Cons.prems(1) have lt: "off < end_ptr"
    and le: "off + length (record_of g) + length (db_of gs) \<le> end_ptr"
    by simp_all
  from Cons.prems(2) lt obtain j where
    "play_games E d root end_ptr (off + length (record_of g)) gs (cnt + length (snd g))
       (if j = Matched then mcnt + 1 else mcnt) = Inr (c, k)"
    by (auto split: sum.splits)
  from Cons.IH [OF le this] show ?case
    by (simp add: total_moves_def)
qed

text \<open>
  With one thread, the scan of a well-formed database skips the first game: when it
  returns, the number of moves it reports is the number of moves of the other games.
\<close>

lemma scan_one_thread_skips_first_game:
  assumes mem: "baseAddress d = db_of (g # gs) @ pad"
    and size: "dbSize d = length (db_of (g # gs))"
    and pad: "pad \<noteq> []"
    and wf: "list_all wf_game (g # gs)"
    and scan: "scan E d root 1 = Inr (c, k)"
  shows "c = total_moves gs"
proof -
  have one: "[0 ..< 1] = [0 :: nat]" by (simp add: upt_rec)
  have "search E 1 \<lparr>idx = 0, scout = d, rootPos = root\<rparr> =
    (case play_games E d root (dbSize d) (length (record_of g)) gs 0 0 of
       Inl e \<Rightarrow> Inl e
     | Inr (c, k) \<Rightarrow> Inr \<lparr>idx = 0, scout = d\<lparr>movesCnt := c, matchCnt := k\<rparr>, rootPos = root\<rparr>)"
    using search_layout [OF mem size pad wf, of 0 1 E root] by simp
  with scan obtain c' k' where pg: "play_games E d root (dbSize d) (length (record_of g)) gs 0 0 = Inr (c', k')"
    and "c = c'"
    by (auto simp: scan_def run_threads_def one print_results_def split: sum.splits)
  moreover have "length (record_of g) + length (db_of gs) \<le> dbSize d"
    using size by simp
  ultimately show ?thesis
    using play_games_all [of "length (record_of g)" gs "dbSize d" E d root 0 0 c' k'] by simp
qed

text \<open>
  C2, at a failing input. The database holds two well-formed games of two moves each,
  and the number of threads does not exceed the number of games. With one thread the
  scan reports 2 moves and 1 match: the first game is skipped and the second is played.
  With two threads it reports no move and no match: the second game begins exactly at
  the end of the first thread's slice, which is the start of the second thread's, and
  neither thread plays it.
\<close>

theorem scan_totals_depend_on_threads:
  "list_all wf_game ex_two_games \<and>
   baseAddress ex_two_games_data = db_of ex_two_games @ [0] \<and>
   dbSize ex_two_games_data = length (db_of ex_two_games) \<and>
   length ex_two_games = 2 \<and>
   scan ex_engine ex_two_games_data ex_root_pos 1 = Inr (2, 1) \<and>
   scan ex_engine ex_two_games_data ex_root_pos 2 = Inr (0, 0)"
proof -
  have "list_all wf_game ex_two_games"
    by (simp add: ex_two_games_def wf_game_def MOVE_NONE_def)
  moreover have "baseAddress ex_two_games_data = db_of ex_two_games @ [0]"
    and "dbSize ex_two_games_data = length (db_of ex_two_games)"
    and "length ex_two_games = 2"
    by (simp_all add: ex_two_games_data_def ex_data_def ex_two_games_def)
  moreover have "scan ex_engine ex_two_games_data ex_root_pos 1 = Inr (2, 1)"
    by (simp add: scan_def run_threads_def search_def ex_two_games_data_def ex_two_games_def
        db_of_def record_of_def ex_engine_def ex_root_pos_def ex_data_def
        move_to_next_game.simps main_loop.simps replay_game.simps skip_to_next.simps
        end_of_game.simps print_results_def MOVE_NONE_def)
  moreover have "scan ex_engine ex_two_games_data ex_root_pos 2 = Inr (0, 0)"
    by (simp add: scan_def run_threads_def search_def ex_two_games_data_def ex_two_games_def
        db_of_def record_of_def ex_engine_def ex_root_pos_def ex_data_def
        move_to_next_game.simps main_loop.simps replay_game.simps skip_to_next.simps
        end_of_game.simps print_results_def MOVE_NONE_def upt_rec)
  ultimately show ?thesis by simp
qed

text \<open>
  C3, at a failing input. The database holds three well-formed games with 5 moves in
  all. With one thread the scan reports 4 moves, the moves of all games but the first.
  With three threads it reports 1 move: the second game begins exactly at the start of
  the second thread's slice and is played by no thread.
\<close>

theorem scan_misses_moves:
  "list_all wf_game ex_three_games \<and>
   baseAddress ex_three_games_data = db_of ex_three_games @ [0] \<and>
   dbSize ex_three_games_data = length (db_of ex_three_games) \<and>
   total_moves ex_three_games = 5 \<and>
   scan ex_engine ex_three_games_data ex_root_pos 1 = Inr (4, 0) \<and>
   scan ex_engine ex_three_games_data ex_root_pos 3 = Inr (1, 0)"
proof -
  have "list_all wf_game ex_three_games"
    by (simp add: ex_three_games_def wf_game_def MOVE_NONE_def)
  moreover have "baseAddress ex_three_games_data = db_of ex_three_games @ [0]"
    and "dbSize ex_three_games_data = length (db_of ex_three_games)"
    and "total_moves ex_three_games = 5"
    by (simp_all add: ex_three_games_data_def ex_data_def ex_three_games_def total_moves_def)
  moreover have "scan ex_engine ex_three_games_data ex_root_pos 1 = Inr (4, 0)"
    by (simp add: scan_def run_threads_def search_def ex_three_games_data_def ex_three_games_def
        db_of_def record_of_def ex_engine_def ex_root_pos_def ex_data_def
        move_to_next_game.simps main_loop.simps replay_game.simps skip_to_next.simps
        end_of_game.simps print_results_def MOVE_NONE_def)
  moreover have "scan ex_engine ex_three_games_data ex_root_pos 3 = Inr (1, 0)"
    by (simp add: scan_def run_threads_def search_def ex_three_games_data_def ex_three_games_def
        db_of_def record_of_def ex_engine_def ex_root_pos_def ex_data_def
        move_to_next_game.simps main_loop.simps replay_game.simps skip_to_next.simps
        end_of_game.simps print_results_def MOVE_NONE_def upt_rec)
  ultimately show ?thesis by simp
qed

end
